theory Spec2Isabelle
  imports Main "HOL-Library.Word"
begin

unbundle bit_operations_syntax

section \<open>Stack layout of the context primitive (callcc.h)\<close>

text \<open>
  Addresses and sizes are \<open>uintptr_t\<close> values: 64-bit words whose arithmetic wraps.
  \<open>stack_t\<close> is what a stack allocator returns: \<open>sp\<close> is the high end of the region and
  \<open>stack_size\<close> (the source's \<open>size\<close>) its length, so the region is
  \<open>[sp - stack_size, sp)\<close>.
\<close>

type_synonym uintptr_t = "64 word"

record stack_t =
  sp :: uintptr_t
  stack_size :: uintptr_t

text \<open>
  \<open>stack_control_structure\<close>: only the members the layout depends on. \<open>this\<close> is the
  address at which the structure has been constructed by placement new; the allocator and
  the main function stored in it do not influence any address.
\<close>

record stack_control_structure =
  this :: uintptr_t
  stack :: stack_t

definition stack_end :: "stack_control_structure \<Rightarrow> uintptr_t" where
  "stack_end c = (let gap = 64 in this c - gap)"

definition stack_begin :: "stack_control_structure \<Rightarrow> uintptr_t" where
  "stack_begin c = sp (stack c) - stack_size (stack c)"

definition useful_size :: "stack_control_structure \<Rightarrow> uintptr_t" where
  "useful_size c = stack_end c - stack_begin c"

text \<open>
  \<open>allocate_stack\<close>. The two leading parameters are \<open>sizeof(control_t)\<close> and
  \<open>alignof(control_t)\<close>, which the template instantiation fixes; \<open>stack\<close> is the result
  of \<open>allocator.allocate()\<close>. The source computes
  \<^verbatim>\<open>(uintptr_t(stack.sp) - uintptr_t(sizeof(control_t))) & ~align\<close>.
\<close>

definition allocate_stack :: "uintptr_t \<Rightarrow> uintptr_t \<Rightarrow> stack_t \<Rightarrow> stack_control_structure" where
  "allocate_stack sizeof_control alignof_control stk =
     (let align = alignof_control;
          p = (sp stk - sizeof_control) AND NOT align
      in \<lparr>this = p, stack = stk\<rparr>)"


section \<open>Worker threads of the pool: the wake-up protocol (thread_pool.cpp)\<close>

text \<open>
  Modelled from the spec: the wakeup token of \<open>detail/sleep_helper.h\<close>, which is not part
  of the sources at hand. A token is bound to the sleep helper of one \<open>sleep\<close> call;
  \<open>notify\<close> sets the helper's word and wakes the sleeper, \<open>invalidate\<close> turns every later
  \<open>notify\<close> into a no-op.
\<close>

datatype wakeup_token = token_invalid | token_waiting | token_notified

fun notify :: "wakeup_token \<Rightarrow> wakeup_token" where
  "notify token_invalid = token_invalid"
| "notify token_waiting = token_notified"
| "notify token_notified = token_notified"

definition invalidate :: "wakeup_token \<Rightarrow> wakeup_token" where
  "invalidate t = token_invalid"

text \<open>
  \<open>worker_thread_data\<close>. \<open>wake_requests_\<close> is an atomic \<open>int\<close>: a 32-bit word, on which
  \<open>fetch_add\<close> and \<open>fetch_sub\<close> wrap around. The start index is an \<open>int\<close> that is only
  stored and loaded. \<open>sleep_calls\<close> is a ghost counter: how often the worker has called
  \<open>sleep_helper.sleep()\<close>, that is, how often it has parked.
\<close>

record worker_thread_data =
  wake_requests :: "32 word"
  work_line_start_index :: int
  wakeup_token :: wakeup_token
  sleep_calls :: nat

text \<open>
  Modelled from the spec: the initial values of the members, which the class declaration
  in \<open>thread_pool.h\<close> (not part of the sources at hand) gives; the spec says that
  \<open>wake_requests\<close> starts at 1.
\<close>

definition worker_thread_data_init :: worker_thread_data where
  "worker_thread_data_init =
     \<lparr>wake_requests = 1, work_line_start_index = 0, wakeup_token = token_invalid,
      sleep_calls = 0\<rparr>"

definition try_notify :: "int \<Rightarrow> worker_thread_data \<Rightarrow> bool \<times> worker_thread_data" where
  "try_notify work_line_hint w =
     (let old = wake_requests w;
          w1 = w\<lparr>wake_requests := old + 1\<rparr>
      in if old = 0
         then (True, w1\<lparr>work_line_start_index := work_line_hint,
                         wakeup_token := notify (wakeup_token w1)\<rparr>)
         else (False, w1))"

text \<open>
  \<open>sleep\<close>. \<open>stop\<close> is the value the worker reads from \<open>stop_requested\<close>. The other
  threads act on this worker only through \<open>try_notify\<close>; \<open>notifiers\<close> lists the hints of
  the \<open>try_notify\<close> calls that reach the worker after its \<open>fetch_sub\<close> and before it
  invalidates the token. \<open>sleep_helper.sleep()\<close> is called once, not in a loop; it
  returns when the token has been notified, and it may also return without a notification
  (a spurious wakeup, \<open>spurious\<close>). A worker that parks, is never notified and is not woken
  spuriously does not return (\<open>None\<close>).
\<close>

definition sleep ::
  "bool \<Rightarrow> bool \<Rightarrow> int list \<Rightarrow> worker_thread_data \<Rightarrow> (int \<times> worker_thread_data) option" where
  "sleep stop spurious notifiers w =
     (let w1 = w\<lparr>wakeup_token := token_waiting\<rparr>;
          old = wake_requests w1;
          w2 = w1\<lparr>wake_requests := old - 1\<rparr>;
          parks = (old = 1 \<and> \<not> stop);
          w3 = (if parks then w2\<lparr>sleep_calls := Suc (sleep_calls w2)\<rparr> else w2);
          w4 = foldl (\<lambda>v h. snd (try_notify h v)) w3 notifiers
      in if parks \<and> wakeup_token w4 \<noteq> token_notified \<and> \<not> spurious then None
         else let w5 = w4\<lparr>wakeup_token := invalidate (wakeup_token w4)\<rparr>;
                  w6 = w5\<lparr>wake_requests := 1\<rparr>
              in Some (work_line_start_index w6, w6))"

section \<open>Tasks, work lines and the pool (thread_pool.cpp)\<close>

text \<open>
  Tasks live in client memory and are linked intrusively, so the model keeps an explicit
  store: \<open>task_mem\<close> maps the address of a task to its members. A \<open>slot\<close> is the address
  of a pointer to a task: the head pointer \<open>tasks_stack_\<close> of the work line with a given
  index, or the \<open>next_\<close> member of the task at a given address. \<open>prev_link_\<close> holds such
  an address; \<open>worker_data_\<close> holds the index of the owning work line. The trailing
  underscore of the source's member names is dropped, and \<open>next_\<close> is \<open>next_ptr\<close>.
\<close>

datatype slot = tasks_stack_of nat | next_of nat

record concore2full_task =
  next_ptr :: "nat option"
  prev_link :: "slot option"
  worker_data :: "nat option"

text \<open>
  \<open>bottleneck\<close> is the mutex of the line as this thread finds it: \<open>True\<close> when another
  thread holds it, so that \<open>try_to_lock\<close> fails.
\<close>

record work_line =
  tasks_stack :: "nat option"
  bottleneck :: bool

text \<open>
  The pool. \<open>num_tasks_\<close> is an atomic \<open>int\<close>: a 32-bit word, on which \<open>fetch_add\<close> and
  \<open>fetch_sub\<close> wrap around and which \<open>sint\<close> reads as the \<open>int\<close>.
  \<open>executed\<close> and \<open>joined\<close> are ghost logs of the calls that leave the pool:
  \<open>executed\<close> lists the calls \<open>task_function_(task, line_index)\<close> in order, \<open>joined\<close>
  lists the worker objects whose thread has been joined, as they were at that moment.
\<close>

record thread_pool =
  task_mem :: "nat \<Rightarrow> concore2full_task"
  work_lines :: "work_line list"
  threads :: "worker_thread_data list"
  num_tasks :: "32 word"
  line_to_push_to :: "32 word"
  stop_requested :: bool
  executed :: "(nat \<times> int) list"
  joined :: "worker_thread_data list"

subsection \<open>Writes through pointers\<close>

definition set_next :: "nat \<Rightarrow> nat option \<Rightarrow> thread_pool \<Rightarrow> thread_pool" where
  "set_next a v s = s\<lparr>task_mem := (task_mem s)(a := (task_mem s a)\<lparr>next_ptr := v\<rparr>)\<rparr>"

definition set_prev_link :: "nat \<Rightarrow> slot option \<Rightarrow> thread_pool \<Rightarrow> thread_pool" where
  "set_prev_link a v s = s\<lparr>task_mem := (task_mem s)(a := (task_mem s a)\<lparr>prev_link := v\<rparr>)\<rparr>"

definition set_worker_data :: "nat \<Rightarrow> nat option \<Rightarrow> thread_pool \<Rightarrow> thread_pool" where
  "set_worker_data a v s = s\<lparr>task_mem := (task_mem s)(a := (task_mem s a)\<lparr>worker_data := v\<rparr>)\<rparr>"

definition set_tasks_stack :: "nat \<Rightarrow> nat option \<Rightarrow> thread_pool \<Rightarrow> thread_pool" where
  "set_tasks_stack d v s = s\<lparr>work_lines := (work_lines s)[d := (work_lines s ! d)\<lparr>tasks_stack := v\<rparr>]\<rparr>"

text \<open>
  \<open>*link = v\<close>. A link into a work line that does not exist is a wild pointer: the write
  is undefined behaviour (\<open>None\<close>).
\<close>

fun store_slot :: "slot \<Rightarrow> nat option \<Rightarrow> thread_pool \<Rightarrow> thread_pool option" where
  "store_slot (tasks_stack_of d) v s =
     (if d < length (work_lines s) then Some (set_tasks_stack d v s) else None)"
| "store_slot (next_of a) v s = Some (set_next a v s)"

fun load_slot :: "thread_pool \<Rightarrow> slot \<Rightarrow> nat option" where
  "load_slot s (tasks_stack_of d) = tasks_stack (work_lines s ! d)"
| "load_slot s (next_of a) = next_ptr (task_mem s a)"

text \<open>
  A blocking \<open>std::unique_lock lock{bottleneck_}\<close>: the thread waits until the holder has
  released the mutex, and releases it itself when the operation returns.
\<close>

definition lock_wait :: "nat \<Rightarrow> thread_pool \<Rightarrow> thread_pool" where
  "lock_wait d s = s\<lparr>work_lines := (work_lines s)[d := (work_lines s ! d)\<lparr>bottleneck := False\<rparr>]\<rparr>"

subsection \<open>Work line operations\<close>

text \<open>
  The first argument of every work line operation is the index of the line (\<open>this\<close>).
  The assertions of the source exist only in debug builds and are not part of the
  operations; they call \<open>check_list\<close>, modelled below.
\<close>

definition push_unprotected :: "nat \<Rightarrow> nat \<Rightarrow> thread_pool \<Rightarrow> thread_pool" where
  "push_unprotected d task s =
     (let s1 = set_worker_data task (Some d) s;
          s2 = set_next task (tasks_stack (work_lines s1 ! d)) s1;
          s3 = (case tasks_stack (work_lines s2 ! d) of
                  None \<Rightarrow> s2
                | Some head \<Rightarrow> set_prev_link head (Some (next_of task)) s2);
          s4 = set_prev_link task (Some (tasks_stack_of d)) s3
      in set_tasks_stack d (Some task) s4)"

definition pop_unprotected :: "nat \<Rightarrow> thread_pool \<Rightarrow> nat option \<times> thread_pool" where
  "pop_unprotected d s =
     (case tasks_stack (work_lines s ! d) of
        None \<Rightarrow> (None, s)
      | Some res \<Rightarrow>
          (let s1 = set_tasks_stack d (next_ptr (task_mem s res)) s;
               s2 = (case tasks_stack (work_lines s1 ! d) of
                       None \<Rightarrow> s1
                     | Some head \<Rightarrow> set_prev_link head (Some (tasks_stack_of d)) s1);
               s3 = set_prev_link res None s2;
               s4 = set_worker_data res None s3
           in (Some res, s4)))"

definition try_push :: "nat \<Rightarrow> nat \<Rightarrow> thread_pool \<Rightarrow> bool \<times> thread_pool" where
  "try_push d task s =
     (if bottleneck (work_lines s ! d) then (False, s)
      else (True, push_unprotected d task s))"

definition push :: "nat \<Rightarrow> nat \<Rightarrow> thread_pool \<Rightarrow> thread_pool" where
  "push d task s = push_unprotected d task (lock_wait d s)"

definition try_pop :: "nat \<Rightarrow> thread_pool \<Rightarrow> nat option \<times> thread_pool" where
  "try_pop d s =
     (if bottleneck (work_lines s ! d) \<or> tasks_stack (work_lines s ! d) = None then (None, s)
      else pop_unprotected d s)"

text \<open>
  \<open>work_line::extract_task\<close>. \<open>*task->prev_link_ = task->next_\<close> with a null
  \<open>prev_link_\<close> is undefined behaviour (\<open>None\<close>).
\<close>

definition work_line_extract_task :: "nat \<Rightarrow> nat \<Rightarrow> thread_pool \<Rightarrow> (bool \<times> thread_pool) option" where
  "work_line_extract_task d task s =
     (let s0 = lock_wait d s
      in if worker_data (task_mem s0 task) \<noteq> None
         then (case prev_link (task_mem s0 task) of
                 None \<Rightarrow> None
               | Some link \<Rightarrow>
                   (case store_slot link (next_ptr (task_mem s0 task)) s0 of
                      None \<Rightarrow> None
                    | Some s1 \<Rightarrow>
                        (let s2 = (case next_ptr (task_mem s1 task) of
                                     None \<Rightarrow> s1
                                   | Some n \<Rightarrow> set_prev_link n (prev_link (task_mem s1 task)) s1);
                             s3 = set_worker_data task None s2;
                             s4 = set_prev_link task None s3
                         in Some (True, s4))))
         else Some (False, s0))"

subsection \<open>Pool operations\<close>

fun notify_first :: "int \<Rightarrow> worker_thread_data list \<Rightarrow> worker_thread_data list" where
  "notify_first work_line_hint [] = []"
| "notify_first work_line_hint (t # ts) =
     (let (woken, t1) = try_notify work_line_hint t
      in if woken then t1 # ts else t1 # notify_first work_line_hint ts)"

text \<open>
  \<open>notify_one\<close>: \<open>notify_first\<close> is the loop over \<open>threads_\<close>, which returns at the
  first \<open>try_notify\<close> that succeeds. The comparison is that of \<open>int\<close>, with
  \<open>threads_.size()\<close> converted to \<open>int\<close>.
\<close>

definition notify_one :: "int \<Rightarrow> thread_pool \<Rightarrow> thread_pool" where
  "notify_one work_line_hint s =
     (let old = num_tasks s;
          s1 = s\<lparr>num_tasks := old + 1\<rparr>
      in if sint old \<le> sint (word_of_nat (length (threads s1)) :: 32 word)
         then s1\<lparr>threads := notify_first work_line_hint (threads s1)\<rparr>
         else s1)"

text \<open>
  The non-blocking loop of \<open>enqueue\<close>, over the values of \<open>i\<close> that remain; the index
  arithmetic is that of \<open>uint32_t\<close>. \<open>None\<close>: no \<open>try_push\<close> succeeded.
\<close>

fun enqueue_try :: "nat \<Rightarrow> 32 word \<Rightarrow> 32 word \<Rightarrow> nat list \<Rightarrow> thread_pool \<Rightarrow> thread_pool option" where
  "enqueue_try task index work_line_count [] s = None"
| "enqueue_try task index work_line_count (i # rest) s =
     (let current_index = (index + word_of_nat i) mod work_line_count;
          (pushed, s1) = try_push (unat current_index) task s
      in if pushed then Some (notify_one (sint current_index) s1)
         else enqueue_try task index work_line_count rest s1)"

text \<open>
  \<open>enqueue\<close>. \<open>line_to_push_to_\<close> is taken as a 32-bit counter (its declaration is not
  part of the sources at hand; the source reduces its value in \<open>uint32_t\<close>). With no work
  line the source asserts and then divides by zero: no result (\<open>None\<close>).
\<close>

definition enqueue :: "nat \<Rightarrow> thread_pool \<Rightarrow> thread_pool option" where
  "enqueue task s =
     (let s1 = set_next task None s;
          s2 = set_prev_link task None s1;
          work_line_count = (word_of_nat (length (work_lines s2)) :: 32 word)
      in if work_line_count = 0 then None
         else
           (let index = line_to_push_to s2 mod work_line_count;
                s3 = s2\<lparr>line_to_push_to := line_to_push_to s2 + 1\<rparr>
            in case enqueue_try task index work_line_count [0..<unat work_line_count] s3 of
                 Some s4 \<Rightarrow> Some s4
               | None \<Rightarrow>
                   (let current_index = index mod work_line_count;
                        s4 = push (unat current_index) task s3
                    in Some (notify_one (sint current_index) s4))))"

text \<open>
  \<open>thread_pool::extract_task\<close>. \<open>worker_data_\<close> is cast to a work line; an index that
  names no line of the pool is a wild pointer (\<open>None\<close>).
\<close>

definition extract_task :: "nat \<Rightarrow> thread_pool \<Rightarrow> (bool \<times> thread_pool) option" where
  "extract_task task s =
     (case worker_data (task_mem s task) of
        None \<Rightarrow> Some (False, s)
      | Some d \<Rightarrow>
          if d < length (work_lines s)
          then (case work_line_extract_task d task s of
                  None \<Rightarrow> None
                | Some (res, s1) \<Rightarrow>
                    Some (res, if res then s1\<lparr>num_tasks := num_tasks s1 - 1\<rparr> else s1))
          else None)"

text \<open>The remainder of C++ on \<open>int\<close>, which truncates towards zero.\<close>

definition c_rem :: "int \<Rightarrow> int \<Rightarrow> int" where
  "c_rem a b = sgn a * (\<bar>a\<bar> mod \<bar>b\<bar>)"

text \<open>
  The sweep of \<open>thread_main\<close> over the work lines, for the values of \<open>i\<close> that remain.
  The result is \<open>to_execute\<close>, \<open>line_index\<close> and the pool. The sum \<open>i + work_line_hint\<close>
  is one of \<open>int\<close>: outside the range of \<open>int\<close> it is undefined (\<open>None\<close>); a negative
  \<open>line_index\<close> indexes \<open>work_lines_\<close> out of bounds (\<open>None\<close>).
\<close>

fun thread_main_sweep ::
  "int \<Rightarrow> int \<Rightarrow> nat list \<Rightarrow> int \<Rightarrow> thread_pool \<Rightarrow> (nat option \<times> int \<times> thread_pool) option" where
  "thread_main_sweep work_line_hint work_line_count [] line_index s = Some (None, line_index, s)"
| "thread_main_sweep work_line_hint work_line_count (i # rest) line_index s =
     (if int i + work_line_hint < - (2 ^ 31) \<or> 2 ^ 31 \<le> int i + work_line_hint then None
      else
        (let line_index1 = c_rem (int i + work_line_hint) work_line_count
         in if line_index1 < 0 then None
            else
              (let (to_execute, s1) = try_pop (nat line_index1) s
               in if to_execute \<noteq> None then Some (to_execute, line_index1, s1)
                  else thread_main_sweep work_line_hint work_line_count rest line_index1 s1)))"

text \<open>
  One iteration of the loop of \<open>thread_main\<close>, for the worker \<open>thread_index\<close> that enters
  it with \<open>work_line_hint\<close>; the result is the hint after the iteration and the pool.
  \<open>inversion_checkpoint\<close> does not touch the pool. What the task function does is the
  client's business: the call is logged in \<open>executed\<close>. \<open>spurious\<close> and \<open>notifiers\<close> are
  passed to \<open>sleep\<close>. \<open>work_line_count\<close> is \<open>work_lines_.size()\<close> converted to \<open>int\<close>;
  the bound \<open>2 * work_line_count\<close> of the sweep is undefined outside the range of \<open>int\<close>
  (\<open>None\<close>).
\<close>

definition thread_main_body ::
  "nat \<Rightarrow> int \<Rightarrow> bool \<Rightarrow> int list \<Rightarrow> thread_pool \<Rightarrow> (int \<times> thread_pool) option" where
  "thread_main_body thread_index work_line_hint spurious notifiers s =
     (case (if num_tasks s = 0
            then (case sleep (stop_requested s) spurious notifiers (threads s ! thread_index) of
                    None \<Rightarrow> None
                  | Some (h, w) \<Rightarrow> Some (h, s\<lparr>threads := (threads s)[thread_index := w]\<rparr>))
            else Some (work_line_hint, s)) of
        None \<Rightarrow> None
      | Some (hint, s1) \<Rightarrow>
          (let work_line_count = sint (word_of_nat (length (work_lines s1)) :: 32 word)
           in if 2 * work_line_count < - (2 ^ 31) \<or> 2 ^ 31 \<le> 2 * work_line_count then None
              else
                (case thread_main_sweep hint work_line_count
                        [0..<nat (2 * work_line_count)] 0 s1 of
                   None \<Rightarrow> None
                 | Some (to_execute, line_index, s2) \<Rightarrow>
                     (case to_execute of
                        None \<Rightarrow> Some (hint, s2)
                      | Some task \<Rightarrow>
                          Some (hint, s2\<lparr>num_tasks := num_tasks s2 - 1,
                                          executed := executed s2 @ [(task, line_index)]\<rparr>)))))"

text \<open>
  \<open>join\<close>: store the stop flag, \<open>try_notify(0)\<close> on every worker, join every thread,
  clear \<open>threads_\<close>.
\<close>

definition join :: "thread_pool \<Rightarrow> thread_pool" where
  "join s =
     (let s1 = s\<lparr>stop_requested := True\<rparr>;
          s2 = s1\<lparr>threads := map (\<lambda>t. snd (try_notify 0 t)) (threads s1)\<rparr>;
          s3 = s2\<lparr>joined := joined s2 @ threads s2\<rparr>
      in s3\<lparr>threads := []\<rparr>)"

datatype abort = std_terminate

text \<open>
  The destructor: \<open>Inl std_terminate\<close> when it calls \<open>std::terminate()\<close>. The counter is
  compared as an \<open>int\<close>.
\<close>

definition destructor :: "thread_pool \<Rightarrow> abort + thread_pool" where
  "destructor s = (if sint (num_tasks s) > 0 then Inl std_terminate else Inr (join s))"

text \<open>
  Modelled from the spec: the state of a pool of \<open>thread_count\<close> workers after its
  construction (the member initialisers are in \<open>thread_pool.h\<close>, not part of the sources
  at hand): empty work lines, no task counted, workers as initialised above. \<open>mem\<close> is
  the client memory that holds the tasks.
\<close>

definition thread_pool_init :: "(nat \<Rightarrow> concore2full_task) \<Rightarrow> nat \<Rightarrow> thread_pool" where
  "thread_pool_init mem thread_count =
     \<lparr>task_mem = mem,
      work_lines = replicate thread_count \<lparr>tasks_stack = None, bottleneck = False\<rparr>,
      threads = replicate thread_count worker_thread_data_init,
      num_tasks = 0, line_to_push_to = 0, stop_requested = False,
      executed = [], joined = []\<rparr>"

subsection \<open>The list of a work line\<close>

text \<open>
  \<open>check_list\<close> of the source (debug builds): \<open>Some False\<close> when an assertion fails.
  \<open>None\<close>: the walk does not return (a cycle), or it reads through a link into a work
  line that does not exist.
\<close>

partial_function (option) check_list :: "thread_pool \<Rightarrow> nat option \<Rightarrow> nat \<Rightarrow> bool option" where
  "check_list s cur data =
     (case cur of
        None \<Rightarrow> Some True
      | Some c \<Rightarrow>
          (case prev_link (task_mem s c) of
             None \<Rightarrow> Some False
           | Some link \<Rightarrow>
               if (case link of tasks_stack_of d \<Rightarrow> length (work_lines s) \<le> d | next_of a \<Rightarrow> False)
               then None
               else if load_slot s link \<noteq> Some c then Some False
               else if worker_data (task_mem s c) \<noteq> Some data then Some False
               else check_list s (next_ptr (task_mem s c)) data))"

text \<open>
  The tasks reachable from a pointer along \<open>next_\<close>, in order; \<open>None\<close> when the walk
  never reaches null.
\<close>

partial_function (option) chain :: "(nat \<Rightarrow> concore2full_task) \<Rightarrow> nat option \<Rightarrow> nat list option" where
  "chain mem p =
     (case p of
        None \<Rightarrow> Some []
      | Some a \<Rightarrow> Option.bind (chain mem (next_ptr (mem a))) (\<lambda>as. Some (a # as)))"

definition tasks_of :: "thread_pool \<Rightarrow> nat \<Rightarrow> nat list" where
  "tasks_of s d =
     (case chain (task_mem s) (tasks_stack (work_lines s ! d)) of None \<Rightarrow> [] | Some as \<Rightarrow> as)"

text \<open>
  \<open>dll mem d link p as\<close>: from the pointer \<open>p\<close>, stored in the slot \<open>link\<close>, the \<open>next_\<close>
  members lead through exactly the tasks \<open>as\<close> to null; every task's \<open>prev_link_\<close> is
  the slot that points to it and its \<open>worker_data_\<close> is the line \<open>d\<close>.
\<close>

primrec dll :: "(nat \<Rightarrow> concore2full_task) \<Rightarrow> nat \<Rightarrow> slot \<Rightarrow> nat option \<Rightarrow> nat list \<Rightarrow> bool" where
  "dll mem d link p [] = (p = None)"
| "dll mem d link p (a # as) =
     (p = Some a \<and> prev_link (mem a) = Some link \<and> worker_data (mem a) = Some d \<and>
      dll mem d (next_of a) (next_ptr (mem a)) as)"

definition line_inv :: "thread_pool \<Rightarrow> nat \<Rightarrow> bool" where
  "line_inv s d =
     (dll (task_mem s) d (tasks_stack_of d) (tasks_stack (work_lines s ! d)) (tasks_of s d) \<and>
      distinct (tasks_of s d))"

text \<open>
  The invariant of the pool: every work line is a well-formed list, and a task has a
  \<open>worker_data_\<close> only while it is in the line that \<open>worker_data_\<close> names.
\<close>

definition pool_inv :: "thread_pool \<Rightarrow> bool" where
  "pool_inv s =
     ((\<forall>d < length (work_lines s). line_inv s d) \<and>
      (\<forall>a d. worker_data (task_mem s a) = Some d \<longrightarrow>
         d < length (work_lines s) \<and> a \<in> set (tasks_of s d)))"

definition held_tasks :: "thread_pool \<Rightarrow> nat" where
  "held_tasks s = sum_list (map (\<lambda>d. length (tasks_of s d)) [0..<length (work_lines s)])"

subsection \<open>Runs of operations\<close>

text \<open>
  \<open>work_line_run d s s'\<close>: the state \<open>s'\<close> is reached from \<open>s\<close> by a sequence of
  \<open>push\<close>, \<open>try_push\<close>, \<open>try_pop\<close> and \<open>extract_task\<close> calls on the work line \<open>d\<close>.
  The client pushes only tasks that are in no work line (\<open>worker_data_\<close> is null).
\<close>

inductive work_line_run :: "nat \<Rightarrow> thread_pool \<Rightarrow> thread_pool \<Rightarrow> bool" for d s where
  run_start: "work_line_run d s s"
| run_push:
    "work_line_run d s s1 \<Longrightarrow> worker_data (task_mem s1 t) = None \<Longrightarrow>
     work_line_run d s (push d t s1)"
| run_try_push:
    "work_line_run d s s1 \<Longrightarrow> worker_data (task_mem s1 t) = None \<Longrightarrow>
     work_line_run d s (snd (try_push d t s1))"
| run_try_pop:
    "work_line_run d s s1 \<Longrightarrow> work_line_run d s (snd (try_pop d s1))"
| run_extract:
    "work_line_run d s s1 \<Longrightarrow> work_line_extract_task d t s1 = Some (r, s2) \<Longrightarrow>
     work_line_run d s s2"

text \<open>
  \<open>pool_run s ops s'\<close>: the pool goes from \<open>s\<close> to \<open>s'\<close> by the calls \<open>ops\<close>, each
  completed before the next begins: \<open>enqueue\<close> of a task that is in no work line,
  \<open>extract_task\<close>, and iterations of the loop of \<open>thread_main\<close>.
\<close>

datatype pool_op = Enqueue nat | Extract_task nat | Thread_main_body nat int bool "int list"

inductive pool_run :: "thread_pool \<Rightarrow> pool_op list \<Rightarrow> thread_pool \<Rightarrow> bool" for s where
  pool_start: "pool_run s [] s"
| pool_enqueue:
    "pool_run s ops s1 \<Longrightarrow> worker_data (task_mem s1 t) = None \<Longrightarrow> enqueue t s1 = Some s2 \<Longrightarrow>
     pool_run s (ops @ [Enqueue t]) s2"
| pool_extract:
    "pool_run s ops s1 \<Longrightarrow> extract_task t s1 = Some (r, s2) \<Longrightarrow>
     pool_run s (ops @ [Extract_task t]) s2"
| pool_thread_main:
    "pool_run s ops s1 \<Longrightarrow> thread_main_body i hint spur ns s1 = Some (hint', s2) \<Longrightarrow>
     pool_run s (ops @ [Thread_main_body i hint spur ns]) s2"


section \<open>Spawn frames and futures (spawn.h, thread_suspension.cpp)\<close>

text \<open>
  A continuation handle is an opaque token: \<open>my_k\<close> is the spawner suspended in \<open>await\<close>,
  \<open>worker_k\<close> the worker suspended after the spawned function; the null handle is
  \<open>None\<close>. A \<open>thread_suspension\<close> is a slot for a handle, null until it is stored to;
  its loads return what the slot holds at that moment and do not wait for a store.
\<close>

datatype continuation_t = my_k | worker_k

record thread_suspension =
  continuation :: "continuation_t option"




definition use_thread_suspension_relaxed :: "thread_suspension \<Rightarrow> continuation_t option" where
  "use_thread_suspension_relaxed t = continuation t"

text \<open>
  A callable \<open>Fn\<close> without arguments is a function \<open>unit \<Rightarrow> 'a\<close>. \<open>full_spawn_frame\<close> has
  the members of \<open>spawn_frame_base\<close> that the rendezvous uses, the result slot of
  \<open>value_holder\<close> (\<open>None\<close> until it is written) and the callable \<open>f_\<close> (\<open>fn\<close>).
  \<open>fn_calls\<close> is a ghost counter of the invocations of the callable. The only function
  ever stored in \<open>user_function_\<close> is \<open>to_execute\<close>; the pointer to it is
  \<open>to_execute_function\<close>.
\<close>

datatype sync_state_values = initial | main_finished | async_finished

datatype spawn_function = to_execute_function

record 'a full_spawn_frame =
  sync_state :: sync_state_values
  originator :: thread_suspension
  secondary_thread :: thread_suspension
  user_function :: "spawn_function option"
  value_holder :: "'a option"
  fn :: "unit \<Rightarrow> 'a"
  fn_calls :: nat

text \<open>
  \<open>full_spawn_frame::to_execute\<close>, for a callable that returns a value:
  \<^verbatim>\<open>value() = std::invoke(std::forward<Fn>(d->f_))\<close>.
\<close>

definition to_execute :: "'a full_spawn_frame \<Rightarrow> 'a full_spawn_frame" where
  "to_execute d = d\<lparr>value_holder := Some (fn d ()), fn_calls := Suc (fn_calls d)\<rparr>"
















section \<open>Properties of the stack layout\<close>

lemma and_not_exp_eq:
  "(x :: uintptr_t) AND NOT (2 ^ k) = x - of_bool (bit x k) * 2 ^ k"
  using unset_bit_eq [of k x] by (simp add: unset_bit_def push_bit_eq_mult)

lemma and_not_exp_le: "(x :: uintptr_t) AND NOT (2 ^ k) \<le> x"
  by (rule word_and_le2)

lemma unat_exp_le: "unat (2 ^ k :: uintptr_t) \<le> 2 ^ k"
  by (metis le_unat_uoi linorder_linear of_nat_numeral of_nat_power)

lemma and_not_exp_ge:
  "unat (x :: uintptr_t) \<le> unat (x AND NOT (2 ^ k)) + 2 ^ k"
proof -
  let ?p = "x AND NOT (2 ^ k)"
  have "x - ?p = of_bool (bit x k) * 2 ^ k"
    by (simp add: and_not_exp_eq)
  moreover have "unat (x - ?p) = unat x - unat ?p"
    by (rule unat_sub) (rule and_not_exp_le)
  moreover have "unat (of_bool (bit x k) * 2 ^ k :: uintptr_t) \<le> 2 ^ k"
    using unat_exp_le by (cases "bit x k") simp_all
  ultimately show ?thesis by simp
qed

lemma and_not_exp_dvd:
  assumes "2 ^ k dvd unat (x :: uintptr_t)"
  shows "2 ^ k dvd unat (x AND NOT (2 ^ k))"
proof -
  from assms have low: "x AND mask k = 0" by (simp add: and_mask_dvd_nat)
  have "(x AND NOT (2 ^ k)) AND mask k = (x AND mask k) AND NOT (2 ^ k)"
    by (simp add: and.assoc and.commute and.left_commute)
  with low have "(x AND NOT (2 ^ k)) AND mask k = 0"
    by simp
  then show ?thesis by (simp add: and_mask_dvd_nat)
qed

text \<open>
  What the mask of \<open>allocate_stack\<close> does achieve. When the alignment of the control
  structure is a power of two up to 16, \<open>sp\<close> is a multiple of 16, the size of the
  control structure is a multiple of its alignment (as every C++ type's is) and the
  stack is large enough for the structure, the alignment slack and the gap, then the
  structure is aligned and lies in the region, and the useful range
  \<open>[stack_begin, stack_end)\<close> ends 64 bytes below it and lies in the region too.
\<close>

lemma allocate_stack_layout:
  fixes stk :: stack_t and sizeof_control :: uintptr_t
  assumes k: "k \<le> 4"
    and sp16: "16 dvd unat (sp stk)"
    and szk: "2 ^ k dvd unat sizeof_control"
    and fit: "unat sizeof_control + 2 ^ k + 64 \<le> unat (stack_size stk)"
    and reg: "unat (stack_size stk) \<le> unat (sp stk)"
  defines "c \<equiv> allocate_stack sizeof_control (2 ^ k) stk"
  shows "2 ^ k dvd unat (this c)"
    and "unat (this c) + unat sizeof_control \<le> unat (sp stk)"
    and "unat (stack_end c) + 64 = unat (this c)"
    and "unat (stack_begin c) = unat (sp stk) - unat (stack_size stk)"
    and "unat (stack_begin c) \<le> unat (stack_end c)"
    and "unat (useful_size c) = unat (stack_end c) - unat (stack_begin c)"
proof -
  let ?x = "sp stk - sizeof_control"
  have le: "sizeof_control \<le> sp stk"
    using fit reg by (simp add: word_le_nat_alt)
  then have x: "unat ?x = unat (sp stk) - unat sizeof_control"
    by (rule unat_sub)
  have "(2::nat) ^ k dvd 2 ^ 4"
    using k by (rule le_imp_power_dvd)
  then have "(2::nat) ^ k dvd 16" by simp
  with sp16 have "2 ^ k dvd unat (sp stk)" by (rule dvd_trans [rotated])
  with szk have xk: "2 ^ k dvd unat ?x" by (simp add: x)
  have p: "this c = ?x AND NOT (2 ^ k)" by (simp add: c_def allocate_stack_def)
  show al: "2 ^ k dvd unat (this c)" unfolding p using xk by (rule and_not_exp_dvd)
  have ple: "unat (this c) \<le> unat ?x" unfolding p using and_not_exp_le word_le_nat_alt by blast
  have pge: "unat ?x \<le> unat (this c) + 2 ^ k" unfolding p by (rule and_not_exp_ge)
  show "unat (this c) + unat sizeof_control \<le> unat (sp stk)"
    using ple x fit reg by simp
  have p64: "64 \<le> this c"
    using pge x fit reg by (simp add: word_le_nat_alt)
  then have se: "unat (stack_end c) = unat (this c) - 64"
    by (simp add: stack_end_def unat_sub)
  then show "unat (stack_end c) + 64 = unat (this c)"
    using p64 by (simp add: word_le_nat_alt)
  have "stack_size stk \<le> sp stk" using reg by (simp add: word_le_nat_alt)
  then show sb: "unat (stack_begin c) = unat (sp stk) - unat (stack_size stk)"
    by (simp add: stack_begin_def c_def allocate_stack_def unat_sub)
  show bl: "unat (stack_begin c) \<le> unat (stack_end c)"
    using sb se pge x fit reg by simp
  then have "stack_begin c \<le> stack_end c" by (simp add: word_le_nat_alt)
  then show "unat (useful_size c) = unat (stack_end c) - unat (stack_begin c)"
    by (simp add: useful_size_def unat_sub)
qed

text \<open>
  Claim C9 (the control structure is placed at an address aligned to
  \<open>alignof(control_t)\<close>, inside the allocation, with the useful stack ending 64 bytes
  below it) does not hold of the code: the mask \<open>~align\<close> clears the single bit
  \<open>align\<close> instead of the bits below it. A control structure of 64 bytes with
  alignment 32 on the stack \<open>[0x10, 0x10010)\<close>, whose \<open>sp = 0x10010\<close> is a multiple of
  16, is placed at \<open>0xFFD0\<close>, which is 16 modulo 32. The structure and the useful range
  do lie inside the region there; only the alignment fails.
\<close>

theorem allocate_stack_misaligned:
  "16 dvd unat (sp \<lparr>sp = 0x10010, stack_size = 0x10000\<rparr>) \<and>
   this (allocate_stack 64 32 \<lparr>sp = 0x10010, stack_size = 0x10000\<rparr>) = 0xFFD0 \<and>
   unat (this (allocate_stack 64 32 \<lparr>sp = 0x10010, stack_size = 0x10000\<rparr>)) mod 32 = 16 \<and>
   stack_begin (allocate_stack 64 32 \<lparr>sp = 0x10010, stack_size = 0x10000\<rparr>) = 0x10 \<and>
   stack_end (allocate_stack 64 32 \<lparr>sp = 0x10010, stack_size = 0x10000\<rparr>) = 0xFF90"
  by (simp add: allocate_stack_def stack_begin_def stack_end_def)

section \<open>Properties of the wake-up protocol\<close>

lemma try_notify_fst: "fst (try_notify hint w) = (wake_requests w = 0)"
  by (simp add: try_notify_def Let_def)

lemma try_notify_snd:
  "snd (try_notify hint w) =
     (if wake_requests w = 0
      then w\<lparr>wake_requests := 1, work_line_start_index := hint,
             wakeup_token := notify (wakeup_token w)\<rparr>
      else w\<lparr>wake_requests := wake_requests w + 1\<rparr>)"
  by (simp add: try_notify_def Let_def)

lemma notifiers_fold_awake:
  "wake_requests w \<noteq> 0 \<Longrightarrow> unat (wake_requests w) + length ns < 2 ^ 32 \<Longrightarrow>
   foldl (\<lambda>v h. snd (try_notify h v)) w ns =
     w\<lparr>wake_requests := wake_requests w + word_of_nat (length ns)\<rparr>"
proof (induction ns arbitrary: w)
  case Nil
  then show ?case by simp
next
  case (Cons n ns)
  let ?w = "w\<lparr>wake_requests := wake_requests w + 1\<rparr>"
  have u: "unat (wake_requests w + 1) = unat (wake_requests w) + 1"
  proof -
    have "unat (wake_requests w) + unat (1 :: 32 word) < 2 ^ LENGTH(32)"
      using Cons.prems(2) by simp
    then have "unat (wake_requests w + 1) = unat (wake_requests w) + unat (1 :: 32 word)"
      by (simp only: unat_add_lem)
    then show ?thesis by simp
  qed
  have nz: "wake_requests ?w \<noteq> 0"
  proof
    assume "wake_requests ?w = 0"
    then have "unat (wake_requests w + 1) = 0" by simp
    with u show False by simp
  qed
  have b: "unat (wake_requests ?w) + length ns < 2 ^ 32"
    using u Cons.prems(2) by simp
  have "foldl (\<lambda>v h. snd (try_notify h v)) w (n # ns) = foldl (\<lambda>v h. snd (try_notify h v)) ?w ns"
    using Cons.prems(1) by (simp add: try_notify_snd)
  also have "\<dots> = ?w\<lparr>wake_requests := wake_requests ?w + word_of_nat (length ns)\<rparr>"
    using nz b by (rule Cons.IH)
  finally show ?case by (simp add: add.assoc)
qed

lemma notifiers_fold_notified:
  "wakeup_token w = token_notified \<Longrightarrow>
   wakeup_token (foldl (\<lambda>v h. snd (try_notify h v)) w ns) = token_notified"
  by (induction ns arbitrary: w) (simp_all add: try_notify_snd)

lemma notifiers_fold_parked_token:
  "wake_requests w = 0 \<Longrightarrow> wakeup_token w = token_waiting \<Longrightarrow>
   wakeup_token (foldl (\<lambda>v h. snd (try_notify h v)) w (n # ns)) = token_notified"
  using notifiers_fold_notified [of "snd (try_notify n w)" ns]
  by (simp add: try_notify_snd)

lemma notifiers_fold_parked:
  "wake_requests w = 0 \<Longrightarrow> wakeup_token w = token_waiting \<Longrightarrow> length ns < 2 ^ 32 - 1 \<Longrightarrow>
   foldl (\<lambda>v h. snd (try_notify h v)) w (n # ns) =
     w\<lparr>wake_requests := 1 + word_of_nat (length ns), work_line_start_index := n,
        wakeup_token := token_notified\<rparr>"
  using notifiers_fold_awake [of "snd (try_notify n w)" ns]
  by (simp add: try_notify_snd)

lemma notifiers_fold_sleep_calls:
  "sleep_calls (foldl (\<lambda>v h. snd (try_notify h v)) w ns) = sleep_calls w"
  by (induction ns arbitrary: w) (simp_all add: try_notify_snd)

lemma sleep_eq:
  "sleep stop spurious ns w =
     (if wake_requests w = 1 \<and> \<not> stop \<and> ns = [] \<and> \<not> spurious then None
      else Some (work_line_start_index
                   (foldl (\<lambda>v h. snd (try_notify h v))
                      (w\<lparr>wakeup_token := token_waiting, wake_requests := wake_requests w - 1\<rparr>) ns),
                 (foldl (\<lambda>v h. snd (try_notify h v))
                    (w\<lparr>wakeup_token := token_waiting, wake_requests := wake_requests w - 1\<rparr>) ns)
                 \<lparr>wakeup_token := token_invalid, wake_requests := 1,
                   sleep_calls := sleep_calls w + (if wake_requests w = 1 \<and> \<not> stop then 1 else 0)\<rparr>))"
proof -
  let ?F = "foldl (\<lambda>v h. snd (try_notify h v))"
  let ?w0 = "w\<lparr>wakeup_token := token_waiting, wake_requests := wake_requests w - 1\<rparr>"
  have step: "snd (try_notify h (v\<lparr>sleep_calls := c\<rparr>)) = (snd (try_notify h v))\<lparr>sleep_calls := c\<rparr>"
    for h v c
    by (simp add: try_notify_snd)
  have fold_sc: "?F (v\<lparr>sleep_calls := c\<rparr>) ms = (?F v ms)\<lparr>sleep_calls := c\<rparr>" for v c ms
    by (induction ms arbitrary: v) (simp_all only: foldl_Nil foldl_Cons step)
  show ?thesis
  proof (cases "wake_requests w = 1 \<and> \<not> stop")
    case False
    then show ?thesis
      using notifiers_fold_sleep_calls [of ?w0 ns]
      by (auto simp add: sleep_def Let_def invalidate_def)
  next
    case True
    let ?w1 = "w\<lparr>wakeup_token := token_waiting, wake_requests := 0\<rparr>"
    have w3: "?F (w\<lparr>wakeup_token := token_waiting, wake_requests := 0,
                     sleep_calls := Suc (sleep_calls w)\<rparr>) ns =
        (?F ?w1 ns)\<lparr>sleep_calls := Suc (sleep_calls w)\<rparr>"
      using fold_sc [where v = ?w1 and c = "Suc (sleep_calls w)" and ms = ns] by simp
    have tok: "wakeup_token (?F ?w1 ns) = token_notified \<longleftrightarrow> ns \<noteq> []"
    proof (cases ns)
      case Nil
      then show ?thesis by simp
    next
      case (Cons n ms)
      then show ?thesis
        using notifiers_fold_parked_token [of ?w1 n ms] by simp
    qed
    show ?thesis
      using True tok by (simp add: sleep_def Let_def invalidate_def w3)
  qed
qed

text \<open>
  Claim C5, the \<open>wake_requests\<close> protocol. A worker starts with \<open>wake_requests = 1\<close>.
  \<open>try_notify(hint)\<close> returns true exactly when its \<open>fetch_add\<close> read 0; it then stores
  the hint and notifies the token, and otherwise only increments the counter. \<open>sleep\<close>
  sets the token and decrements the counter; it parks (calls \<open>sleep_helper.sleep()\<close>)
  exactly when its \<open>fetch_sub\<close> read 1 and stop was not requested; a parked worker that
  nobody notifies and that has no spurious wakeup does not return. When \<open>sleep\<close> returns,
  the worker is as the \<open>try_notify\<close> calls that reached it during the sleep have left
  it, but for the token, which is invalid, and \<open>wake_requests\<close>, which is 1 again; the
  result is the start index stored in the worker: \<open>sleep\<close> itself does not write it. So,
  with no \<open>try_notify\<close> during the sleep the result is the start index the worker had
  before, and a worker that has parked returns the hint of the \<open>try_notify\<close> that
  notified it (a later one can replace that hint only after the counter has wrapped
  around).
\<close>

theorem wake_requests_protocol:
  "wake_requests worker_thread_data_init = 1 \<and>
   fst (try_notify hint w) = (wake_requests w = 0) \<and>
   snd (try_notify hint w) =
     (if wake_requests w = 0
      then w\<lparr>wake_requests := 1, work_line_start_index := hint,
             wakeup_token := notify (wakeup_token w)\<rparr>
      else w\<lparr>wake_requests := wake_requests w + 1\<rparr>) \<and>
   sleep stop spurious ns w =
     (if wake_requests w = 1 \<and> \<not> stop \<and> ns = [] \<and> \<not> spurious then None
      else Some (work_line_start_index
                   (foldl (\<lambda>v h. snd (try_notify h v))
                      (w\<lparr>wakeup_token := token_waiting, wake_requests := wake_requests w - 1\<rparr>) ns),
                 (foldl (\<lambda>v h. snd (try_notify h v))
                    (w\<lparr>wakeup_token := token_waiting, wake_requests := wake_requests w - 1\<rparr>) ns)
                 \<lparr>wakeup_token := token_invalid, wake_requests := 1,
                   sleep_calls := sleep_calls w + (if wake_requests w = 1 \<and> \<not> stop then 1 else 0)\<rparr>)) \<and>
   (wake_requests w \<noteq> 1 \<or> stop \<or> spurious \<longrightarrow>
      sleep stop spurious [] w =
        Some (work_line_start_index w,
              w\<lparr>wakeup_token := token_invalid, wake_requests := 1,
                sleep_calls := sleep_calls w + (if wake_requests w = 1 \<and> \<not> stop then 1 else 0)\<rparr>)) \<and>
   (wake_requests w = 1 \<and> \<not> stop \<and> length ns < 2 ^ 32 - 1 \<longrightarrow>
      sleep stop spurious (n # ns) w =
        Some (n, w\<lparr>wakeup_token := token_invalid, wake_requests := 1,
                   work_line_start_index := n, sleep_calls := sleep_calls w + 1\<rparr>))"
proof -
  have "wake_requests worker_thread_data_init = 1"
    by (simp add: worker_thread_data_init_def)
  moreover note try_notify_fst [of hint w] try_notify_snd [of hint w] sleep_eq [of stop spurious ns w]
  moreover have "wake_requests w \<noteq> 1 \<or> stop \<or> spurious \<longrightarrow>
      sleep stop spurious [] w =
        Some (work_line_start_index w,
              w\<lparr>wakeup_token := token_invalid, wake_requests := 1,
                sleep_calls := sleep_calls w + (if wake_requests w = 1 \<and> \<not> stop then 1 else 0)\<rparr>)"
    by (auto simp add: sleep_eq)
  moreover have "wake_requests w = 1 \<and> \<not> stop \<and> length ns < 2 ^ 32 - 1 \<longrightarrow>
      sleep stop spurious (n # ns) w =
        Some (n, w\<lparr>wakeup_token := token_invalid, wake_requests := 1,
                   work_line_start_index := n, sleep_calls := sleep_calls w + 1\<rparr>)"
  proof
    assume a: "wake_requests w = 1 \<and> \<not> stop \<and> length ns < 2 ^ 32 - 1"
    let ?w0 = "w\<lparr>wakeup_token := token_waiting, wake_requests := wake_requests w - 1\<rparr>"
    have "foldl (\<lambda>v h. snd (try_notify h v)) ?w0 (n # ns) =
        ?w0\<lparr>wake_requests := 1 + word_of_nat (length ns), work_line_start_index := n,
            wakeup_token := token_notified\<rparr>"
      using a by (intro notifiers_fold_parked) simp_all
    then show "sleep stop spurious (n # ns) w =
        Some (n, w\<lparr>wakeup_token := token_invalid, wake_requests := 1,
                   work_line_start_index := n, sleep_calls := sleep_calls w + 1\<rparr>)"
      using a by (simp add: sleep_eq del: foldl_Cons)
  qed
  ultimately show ?thesis by blast
qed

theorem wake_requests_protocol_witness:
  "sleep False False [7] (worker_thread_data_init\<lparr>work_line_start_index := 3\<rparr>) =
     Some (7, worker_thread_data_init\<lparr>work_line_start_index := 7, sleep_calls := 1\<rparr>) \<and>
   sleep False True [] (worker_thread_data_init\<lparr>work_line_start_index := 3\<rparr>) =
     Some (3, worker_thread_data_init\<lparr>work_line_start_index := 3, sleep_calls := 1\<rparr>) \<and>
   sleep False False [] (worker_thread_data_init\<lparr>work_line_start_index := 3\<rparr>) = None \<and>
   sleep True False [] (worker_thread_data_init\<lparr>work_line_start_index := 3\<rparr>) =
     Some (3, worker_thread_data_init\<lparr>work_line_start_index := 3\<rparr>)"
  using wake_requests_protocol [where w = "worker_thread_data_init\<lparr>work_line_start_index := 3\<rparr>"
      and stop = False and spurious = False and ns = "[]" and n = 7 and hint = 7]
    wake_requests_protocol [where w = "worker_thread_data_init\<lparr>work_line_start_index := 3\<rparr>"
      and stop = False and spurious = True and ns = "[]" and n = 7 and hint = 7]
    wake_requests_protocol [where w = "worker_thread_data_init\<lparr>work_line_start_index := 3\<rparr>"
      and stop = True and spurious = False and ns = "[]" and n = 7 and hint = 7]
  by (simp add: worker_thread_data_init_def)

section \<open>Properties of notification and destruction\<close>

lemma notify_first_eq:
  "notify_first hint ts =
     map (\<lambda>t. snd (try_notify hint t)) (takeWhile (\<lambda>t. \<not> fst (try_notify hint t)) ts) @
     (case dropWhile (\<lambda>t. \<not> fst (try_notify hint t)) ts of
        [] \<Rightarrow> []
      | t # rest \<Rightarrow> snd (try_notify hint t) # rest)"
  by (induction ts) (simp_all add: case_prod_unfold)

lemma sint_small:
  fixes w :: "32 word"
  assumes "unat w < 2 ^ 31"
  shows "sint w = int (unat w)"
proof -
  have "int (unat w) < int (2 ^ 31)" using assms by (rule iffD2 [OF of_nat_less_iff])
  then have hi: "uint w < 2 ^ 31" by simp
  have "(0::int) \<le> uint w" by simp
  moreover have "- (2 ^ 31) \<le> (0::int)" by simp
  ultimately have lo: "- (2 ^ 31) \<le> uint w" by (rule order_trans [rotated])
  from lo hi have "signed_take_bit 31 (uint w) = uint w"
    by (rule signed_take_bit_int_eq_self)
  then show ?thesis by (simp add: sint_uint)
qed

lemma sint_of_nat_small:
  assumes "n < 2 ^ 31"
  shows "sint (word_of_nat n :: 32 word) = int n"
proof -
  have "unat (word_of_nat n :: 32 word) = n"
    using assms by (simp add: unat_of_nat)
  then show ?thesis using sint_small [of "word_of_nat n"] assms by simp
qed

text \<open>
  Claim C4. \<open>notify_one(hint)\<close> adds one to \<open>num_tasks\<close> (a \<open>fetch_add\<close> on the atomic
  \<open>int\<close>). When the value it read, as an \<open>int\<close>, is at most the number of workers, it
  calls \<open>try_notify(hint)\<close> on the workers in order, up to and including the first worker
  on which the call returns true; the workers after that one are not touched. When the
  value read is larger, no worker is touched. The number of workers is that of a pool
  built by the constructor, which takes it as an \<open>int\<close>.
\<close>

theorem notify_one_wakes_first_sleeper:
  assumes "length (threads s) < 2 ^ 31"
  shows "notify_one hint s =
     s\<lparr>num_tasks := num_tasks s + 1,
       threads :=
         (if sint (num_tasks s) \<le> int (length (threads s))
          then map (\<lambda>t. snd (try_notify hint t))
                 (takeWhile (\<lambda>t. \<not> fst (try_notify hint t)) (threads s)) @
               (case dropWhile (\<lambda>t. \<not> fst (try_notify hint t)) (threads s) of
                  [] \<Rightarrow> []
                | t # rest \<Rightarrow> snd (try_notify hint t) # rest)
          else threads s)\<rparr>"
  using sint_of_nat_small [OF assms]
  by (simp add: notify_one_def Let_def notify_first_eq)

theorem notify_one_wakes_first_sleeper_witness:
  "threads (notify_one 1
      ((thread_pool_init (\<lambda>a. \<lparr>next_ptr = None, prev_link = None, worker_data = None\<rparr>) 2)
         \<lparr>threads := [worker_thread_data_init,
                       worker_thread_data_init\<lparr>wake_requests := 0, wakeup_token := token_waiting\<rparr>,
                       worker_thread_data_init\<lparr>wake_requests := 0, wakeup_token := token_waiting\<rparr>]\<rparr>)) =
     [worker_thread_data_init\<lparr>wake_requests := 2\<rparr>,
      worker_thread_data_init\<lparr>wake_requests := 1, work_line_start_index := 1,
                               wakeup_token := token_notified\<rparr>,
      worker_thread_data_init\<lparr>wake_requests := 0, wakeup_token := token_waiting\<rparr>] \<and>
   threads (notify_one 1
      ((thread_pool_init (\<lambda>a. \<lparr>next_ptr = None, prev_link = None, worker_data = None\<rparr>) 2)
         \<lparr>threads := [worker_thread_data_init\<lparr>wake_requests := 0, wakeup_token := token_waiting\<rparr>],
           num_tasks := 2\<rparr>)) =
     [worker_thread_data_init\<lparr>wake_requests := 0, wakeup_token := token_waiting\<rparr>] \<and>
   notify_one 1
      ((thread_pool_init (\<lambda>a. \<lparr>next_ptr = None, prev_link = None, worker_data = None\<rparr>) 2)
         \<lparr>threads := [worker_thread_data_init\<lparr>wake_requests := 0, wakeup_token := token_waiting\<rparr>],
           num_tasks := 2147483647\<rparr>) =
     (thread_pool_init (\<lambda>a. \<lparr>next_ptr = None, prev_link = None, worker_data = None\<rparr>) 2)
         \<lparr>threads := [worker_thread_data_init\<lparr>wake_requests := 0, wakeup_token := token_waiting\<rparr>],
           num_tasks := - 2147483648\<rparr>"
  using notify_one_wakes_first_sleeper [of
      "(thread_pool_init (\<lambda>a. \<lparr>next_ptr = None, prev_link = None, worker_data = None\<rparr>) 2)
         \<lparr>threads := [worker_thread_data_init,
                       worker_thread_data_init\<lparr>wake_requests := 0, wakeup_token := token_waiting\<rparr>,
                       worker_thread_data_init\<lparr>wake_requests := 0, wakeup_token := token_waiting\<rparr>]\<rparr>" 1]
    notify_one_wakes_first_sleeper [of
      "(thread_pool_init (\<lambda>a. \<lparr>next_ptr = None, prev_link = None, worker_data = None\<rparr>) 2)
         \<lparr>threads := [worker_thread_data_init\<lparr>wake_requests := 0, wakeup_token := token_waiting\<rparr>],
           num_tasks := 2\<rparr>" 1]
    notify_one_wakes_first_sleeper [of
      "(thread_pool_init (\<lambda>a. \<lparr>next_ptr = None, prev_link = None, worker_data = None\<rparr>) 2)
         \<lparr>threads := [worker_thread_data_init\<lparr>wake_requests := 0, wakeup_token := token_waiting\<rparr>],
           num_tasks := 2147483647\<rparr>" 1]
  by (simp add: thread_pool_init_def worker_thread_data_init_def try_notify_def Let_def)

text \<open>
  Claim C8. The destructor calls \<open>std::terminate()\<close> when \<open>num_tasks > 0\<close> (the
  counter read as the \<open>int\<close> it is), and nothing is joined then; otherwise it runs \<open>join()\<close>, which sets \<open>stop_requested\<close>, calls
  \<open>try_notify(0)\<close> on every worker, joins every worker thread and leaves \<open>threads_\<close>
  empty.
\<close>

theorem destructor_terminates_or_joins:
  "destructor s = (if 0 < sint (num_tasks s) then Inl std_terminate else Inr (join s)) \<and>
   join s =
     s\<lparr>stop_requested := True,
       joined := joined s @ map (\<lambda>t. snd (try_notify 0 t)) (threads s),
       threads := []\<rparr>"
  by (simp add: destructor_def join_def Let_def)

theorem destructor_terminates_or_joins_witness:
  "destructor ((thread_pool_init (\<lambda>a. \<lparr>next_ptr = None, prev_link = None, worker_data = None\<rparr>) 2)
       \<lparr>num_tasks := 1\<rparr>) = Inl std_terminate \<and>
   destructor ((thread_pool_init (\<lambda>a. \<lparr>next_ptr = None, prev_link = None, worker_data = None\<rparr>) 2)
       \<lparr>threads := [worker_thread_data_init,
                     worker_thread_data_init\<lparr>wake_requests := 0, wakeup_token := token_waiting\<rparr>]\<rparr>) =
     Inr ((thread_pool_init (\<lambda>a. \<lparr>next_ptr = None, prev_link = None, worker_data = None\<rparr>) 2)
       \<lparr>stop_requested := True,
         joined := [worker_thread_data_init\<lparr>wake_requests := 2\<rparr>,
                    worker_thread_data_init\<lparr>wake_requests := 1, wakeup_token := token_notified\<rparr>],
         threads := []\<rparr>)"
  by (simp add: destructor_terminates_or_joins thread_pool_init_def worker_thread_data_init_def
      try_notify_def Let_def)

section \<open>Properties of the work lines\<close>

subsection \<open>Lists in the store\<close>

lemma chain_None [simp]: "chain mem None = Some []"
  by (subst chain.simps) simp

lemma chain_Some:
  "chain mem (Some a) = Option.bind (chain mem (next_ptr (mem a))) (\<lambda>as. Some (a # as))"
  by (subst chain.simps) simp

lemma dll_chain: "dll mem d link p as \<Longrightarrow> chain mem p = Some as"
proof (induction as arbitrary: link p)
  case Nil
  then show ?case by simp
next
  case (Cons a as)
  then have "p = Some a" and "chain mem (next_ptr (mem a)) = Some as"
    using Cons.IH [of "next_of a" "next_ptr (mem a)"] by simp_all
  then show ?case by (simp add: chain_Some)
qed

lemma dll_worker_data: "dll mem d link p as \<Longrightarrow> a \<in> set as \<Longrightarrow> worker_data (mem a) = Some d"
  by (induction as arbitrary: link p) auto

lemma dll_frame:
  assumes "\<forall>a \<in> set as. next_ptr (mem' a) = next_ptr (mem a) \<and>
             prev_link (mem' a) = prev_link (mem a) \<and> worker_data (mem' a) = worker_data (mem a)"
  shows "dll mem' d link p as = dll mem d link p as"
  using assms by (induction as arbitrary: link p) simp_all

lemma dll_next_at:
  "dll mem d link p (ys @ t # zs) \<Longrightarrow>
   next_ptr (mem t) = (case zs of [] \<Rightarrow> None | z # _ \<Rightarrow> Some z)"
proof (induction ys arbitrary: link p)
  case Nil
  then show ?case by (cases zs) simp_all
next
  case (Cons y ys)
  from Cons.prems have "dll mem d (next_of y) (next_ptr (mem y)) (ys @ t # zs)" by simp
  then show ?case by (rule Cons.IH)
qed

lemma dll_prev_at:
  "dll mem d link p (ys @ t # zs) \<Longrightarrow>
   prev_link (mem t) = Some (if ys = [] then link else next_of (last ys))"
proof (induction ys arbitrary: link p)
  case Nil
  then show ?case by simp
next
  case (Cons y ys)
  from Cons.prems have "dll mem d (next_of y) (next_ptr (mem y)) (ys @ t # zs)" by simp
  then have "prev_link (mem t) = Some (if ys = [] then next_of y else next_of (last ys))"
    by (rule Cons.IH)
  then show ?case by simp
qed

lemma dll_unlink_head:
  assumes "dll mem d link p (t # zs)" and "distinct (t # zs)"
    and "\<forall>a \<in> set zs. next_ptr (mem' a) = next_ptr (mem a) \<and> worker_data (mem' a) = worker_data (mem a) \<and>
           prev_link (mem' a) = (if Some a = next_ptr (mem t) then Some link else prev_link (mem a))"
  shows "dll mem' d link (next_ptr (mem t)) zs"
proof (cases zs)
  case Nil
  with assms show ?thesis by simp
next
  case (Cons z zs')
  have "dll mem' d (next_of z) (next_ptr (mem z)) zs' = dll mem d (next_of z) (next_ptr (mem z)) zs'"
    using assms Cons by (intro dll_frame) auto
  with assms Cons show ?thesis by auto
qed

lemma dll_unlink_interior:
  assumes "dll mem d link p (ys @ b # t # zs)" and "distinct (ys @ b # t # zs)"
    and nxt: "\<forall>a. a \<noteq> t \<longrightarrow> next_ptr (mem' a) = (if a = b then next_ptr (mem t) else next_ptr (mem a))"
    and prv: "\<forall>a. a \<noteq> t \<longrightarrow> prev_link (mem' a) =
           (if Some a = next_ptr (mem t) then Some (next_of b) else prev_link (mem a))"
    and wd: "\<forall>a. a \<noteq> t \<longrightarrow> worker_data (mem' a) = worker_data (mem a)"
  shows "dll mem' d link p (ys @ b # zs)"
proof -
  have t: "next_ptr (mem t) = (case zs of [] \<Rightarrow> None | z # _ \<Rightarrow> Some z)"
    using dll_next_at [of mem d link p "ys @ [b]" t zs] assms(1) by simp
  have away: "Some a \<noteq> next_ptr (mem t)" if "a \<notin> set zs" for a
    using that by (auto simp add: t split: list.splits)
  from assms(1,2) show ?thesis
  proof (induction ys arbitrary: link p)
    case Nil
    then have b: "b \<noteq> t" "b \<notin> set zs" and d: "distinct (t # zs)"
      and l: "dll mem d (next_of b) (Some t) (t # zs)"
      by auto
    have "dll mem' d (next_of b) (next_ptr (mem t)) zs"
      using l d
    proof (rule dll_unlink_head)
      show "\<forall>a\<in>set zs. next_ptr (mem' a) = next_ptr (mem a) \<and>
          worker_data (mem' a) = worker_data (mem a) \<and>
          prev_link (mem' a) = (if Some a = next_ptr (mem t) then Some (next_of b) else prev_link (mem a))"
        using nxt prv wd b d by auto
    qed
    moreover have "next_ptr (mem' b) = next_ptr (mem t)"
      using nxt b by simp
    moreover have "prev_link (mem' b) = prev_link (mem b)"
      using prv b away by simp
    moreover have "worker_data (mem' b) = worker_data (mem b)"
      using wd b by simp
    ultimately show ?case using Nil.prems(1) by simp
  next
    case (Cons y ys)
    then have y: "y \<noteq> t" "y \<noteq> b" "y \<notin> set zs" by auto
    have "next_ptr (mem' y) = next_ptr (mem y)" "prev_link (mem' y) = prev_link (mem y)"
      "worker_data (mem' y) = worker_data (mem y)"
      using nxt prv wd y away by simp_all
    moreover have "dll mem' d (next_of y) (next_ptr (mem y)) (ys @ b # zs)"
      using Cons.prems by (intro Cons.IH) auto
    ultimately show ?case using Cons.prems(1) by simp
  qed
qed

subsection \<open>The operations as store updates\<close>

lemma push_unprotected_eq:
  "push_unprotected d t s =
     s\<lparr>task_mem := (\<lambda>a.
           \<lparr>next_ptr = (if a = t then tasks_stack (work_lines s ! d) else next_ptr (task_mem s a)),
            prev_link = (if a = t then Some (tasks_stack_of d)
                         else if Some a = tasks_stack (work_lines s ! d) then Some (next_of t)
                         else prev_link (task_mem s a)),
            worker_data = (if a = t then Some d else worker_data (task_mem s a))\<rparr>),
       work_lines := (work_lines s)[d := (work_lines s ! d)\<lparr>tasks_stack := Some t\<rparr>]\<rparr>"
  by (cases "tasks_stack (work_lines s ! d)")
    (auto simp add: push_unprotected_def Let_def set_next_def set_prev_link_def
      set_worker_data_def set_tasks_stack_def fun_eq_iff intro!: thread_pool.equality)

lemma pop_unprotected_eq:
  "tasks_stack (work_lines s ! d) = Some res \<Longrightarrow> d < length (work_lines s) \<Longrightarrow>
   pop_unprotected d s =
     (Some res,
      s\<lparr>task_mem := (\<lambda>a.
           \<lparr>next_ptr = next_ptr (task_mem s a),
            prev_link = (if a = res then None
                         else if Some a = next_ptr (task_mem s res) then Some (tasks_stack_of d)
                         else prev_link (task_mem s a)),
            worker_data = (if a = res then None else worker_data (task_mem s a))\<rparr>),
       work_lines := (work_lines s)[d := (work_lines s ! d)\<lparr>tasks_stack := next_ptr (task_mem s res)\<rparr>]\<rparr>)"
  by (cases "next_ptr (task_mem s res)")
    (auto simp add: pop_unprotected_def Let_def set_next_def set_prev_link_def
      set_worker_data_def set_tasks_stack_def fun_eq_iff intro!: thread_pool.equality)

lemma work_line_extract_task_eq:
  assumes "worker_data (task_mem s t) \<noteq> None" and "prev_link (task_mem s t) = Some link"
    and "case link of tasks_stack_of d1 \<Rightarrow> d1 < length (work_lines s) | next_of b \<Rightarrow> True"
  shows "work_line_extract_task d t s =
     Some (True,
      s\<lparr>task_mem := (\<lambda>a.
           \<lparr>next_ptr = (if link = next_of a then next_ptr (task_mem s t) else next_ptr (task_mem s a)),
            prev_link = (if a = t then None
                         else if Some a = next_ptr (task_mem s t) then Some link
                         else prev_link (task_mem s a)),
            worker_data = (if a = t then None else worker_data (task_mem s a))\<rparr>),
       work_lines :=
         (case link of
            tasks_stack_of d1 \<Rightarrow>
              ((work_lines s)[d := (work_lines s ! d)\<lparr>bottleneck := False\<rparr>])
                [d1 := ((work_lines s)[d := (work_lines s ! d)\<lparr>bottleneck := False\<rparr>] ! d1)
                         \<lparr>tasks_stack := next_ptr (task_mem s t)\<rparr>]
          | next_of b \<Rightarrow> (work_lines s)[d := (work_lines s ! d)\<lparr>bottleneck := False\<rparr>])\<rparr>)"
proof (cases link)
  case (tasks_stack_of d1)
  with assms show ?thesis
    by (cases "next_ptr (task_mem s t)")
      (auto simp add: work_line_extract_task_def lock_wait_def Let_def set_next_def
        set_prev_link_def set_worker_data_def set_tasks_stack_def fun_eq_iff
        intro!: thread_pool.equality)
next
  case (next_of b)
  with assms show ?thesis
    by (cases "next_ptr (task_mem s t)")
      (auto simp add: work_line_extract_task_def lock_wait_def Let_def set_next_def
        set_prev_link_def set_worker_data_def set_tasks_stack_def fun_eq_iff
        intro!: thread_pool.equality)
qed

lemma work_line_extract_task_detached:
  "worker_data (task_mem s t) = None \<Longrightarrow> work_line_extract_task d t s = Some (False, lock_wait d s)"
  by (simp add: work_line_extract_task_def lock_wait_def Let_def)

subsection \<open>The invariant of the pool\<close>

lemma pool_invI:
  assumes lines: "\<And>d. d < length (work_lines s) \<Longrightarrow>
      dll (task_mem s) d (tasks_stack_of d) (tasks_stack (work_lines s ! d)) (L d) \<and> distinct (L d)"
    and owner: "\<And>a d. worker_data (task_mem s a) = Some d \<Longrightarrow>
      d < length (work_lines s) \<and> a \<in> set (L d)"
  shows "pool_inv s \<and> (\<forall>d < length (work_lines s). tasks_of s d = L d)"
proof -
  have eq: "tasks_of s d = L d" if "d < length (work_lines s)" for d
    using lines [OF that, THEN conjunct1, THEN dll_chain] by (simp add: tasks_of_def)
  then show ?thesis
    using lines owner by (simp add: pool_inv_def line_inv_def)
qed

lemma pool_inv_line:
  assumes "pool_inv s" and "d < length (work_lines s)"
  shows "dll (task_mem s) d (tasks_stack_of d) (tasks_stack (work_lines s ! d)) (tasks_of s d)"
    and "distinct (tasks_of s d)"
  using assms by (simp_all add: pool_inv_def line_inv_def)

lemma pool_inv_owner:
  assumes "pool_inv s" and "worker_data (task_mem s a) = Some d"
  shows "d < length (work_lines s)" and "a \<in> set (tasks_of s d)"
  using assms by (simp_all add: pool_inv_def)

lemma pool_inv_member:
  assumes "pool_inv s" and "d < length (work_lines s)" and "a \<in> set (tasks_of s d)"
  shows "worker_data (task_mem s a) = Some d"
  using pool_inv_line(1) [OF assms(1,2)] assms(3) by (rule dll_worker_data)

lemma pool_inv_head:
  assumes "pool_inv s" and "d < length (work_lines s)"
  shows "tasks_stack (work_lines s ! d) = (case tasks_of s d of [] \<Rightarrow> None | a # _ \<Rightarrow> Some a)"
  using pool_inv_line(1) [OF assms] by (cases "tasks_of s d") simp_all

lemma push_unprotected_inv:
  assumes inv: "pool_inv s" and d: "d < length (work_lines s)"
    and det: "worker_data (task_mem s t) = None"
  shows "pool_inv (push_unprotected d t s) \<and>
    (\<forall>d' < length (work_lines (push_unprotected d t s)).
       tasks_of (push_unprotected d t s) d' = (if d' = d then t # tasks_of s d else tasks_of s d'))"
proof (rule pool_invI)
  let ?s = "push_unprotected d t s"
  let ?H = "tasks_stack (work_lines s ! d)"
  have len: "length (work_lines ?s) = length (work_lines s)"
    by (simp add: push_unprotected_eq)
  have nxt: "next_ptr (task_mem ?s a) = (if a = t then ?H else next_ptr (task_mem s a))" for a
    by (simp add: push_unprotected_eq)
  have prv: "prev_link (task_mem ?s a) =
      (if a = t then Some (tasks_stack_of d) else if Some a = ?H then Some (next_of t)
       else prev_link (task_mem s a))" for a
    by (simp add: push_unprotected_eq)
  have wd: "worker_data (task_mem ?s a) = (if a = t then Some d else worker_data (task_mem s a))" for a
    by (simp add: push_unprotected_eq)
  have fresh: "t \<notin> set (tasks_of s d')" if "d' < length (work_lines s)" for d'
    using pool_inv_member [OF inv that, of t] det by auto
  have H: "?H = (case tasks_of s d of [] \<Rightarrow> None | a # _ \<Rightarrow> Some a)"
    using inv d by (rule pool_inv_head)
  {
    fix d' assume "d' < length (work_lines ?s)"
    then have d': "d' < length (work_lines s)" by (simp add: len)
    note old = pool_inv_line [OF inv d']
    show "dll (task_mem ?s) d' (tasks_stack_of d') (tasks_stack (work_lines ?s ! d'))
            (if d' = d then t # tasks_of s d else tasks_of s d') \<and>
          distinct (if d' = d then t # tasks_of s d else tasks_of s d')"
    proof (cases "d' = d")
      case True
      have head: "tasks_stack (work_lines ?s ! d) = Some t"
        using d by (simp add: push_unprotected_eq)
      have rest: "dll (task_mem ?s) d (next_of t) ?H (tasks_of s d)"
      proof (cases "tasks_of s d")
        case Nil
        then show ?thesis using H by simp
      next
        case (Cons h hs)
        with old True have h: "?H = Some h" "h \<notin> set hs" "worker_data (task_mem s h) = Some d"
          and tl: "dll (task_mem s) d (next_of h) (next_ptr (task_mem s h)) hs"
          by simp_all
        have ht: "h \<noteq> t" using h(3) det by auto
        have "t \<notin> set hs" using fresh [OF d] Cons by simp
        then have "dll (task_mem ?s) d (next_of h) (next_ptr (task_mem s h)) hs =
            dll (task_mem s) d (next_of h) (next_ptr (task_mem s h)) hs"
          using h by (intro dll_frame) (auto simp add: nxt prv wd)
        with tl h ht show ?thesis by (simp add: Cons nxt prv wd)
      qed
      with old True fresh [OF d] head show ?thesis by (simp add: nxt prv wd)
    next
      case False
      have head: "tasks_stack (work_lines ?s ! d') = tasks_stack (work_lines s ! d')"
        using False by (simp add: push_unprotected_eq)
      have "dll (task_mem ?s) d' (tasks_stack_of d') (tasks_stack (work_lines s ! d')) (tasks_of s d') =
          dll (task_mem s) d' (tasks_stack_of d') (tasks_stack (work_lines s ! d')) (tasks_of s d')"
      proof (rule dll_frame, intro ballI)
        fix a assume a: "a \<in> set (tasks_of s d')"
        then have "worker_data (task_mem s a) = Some d'"
          by (rule pool_inv_member [OF inv d'])
        moreover have "Some a \<noteq> ?H"
        proof
          assume "Some a = ?H"
          with H have "a \<in> set (tasks_of s d)" by (cases "tasks_of s d") simp_all
          then have "worker_data (task_mem s a) = Some d" by (rule pool_inv_member [OF inv d])
          with \<open>worker_data (task_mem s a) = Some d'\<close> False show False by simp
        qed
        moreover have "a \<noteq> t" using a fresh [OF d'] by auto
        ultimately show "next_ptr (task_mem ?s a) = next_ptr (task_mem s a) \<and>
            prev_link (task_mem ?s a) = prev_link (task_mem s a) \<and>
            worker_data (task_mem ?s a) = worker_data (task_mem s a)"
          by (simp add: nxt prv wd)
      qed
      with old False head show ?thesis by simp
    qed
  }
  {
    fix a d' assume "worker_data (task_mem ?s a) = Some d'"
    then show "d' < length (work_lines ?s) \<and>
        a \<in> set (if d' = d then t # tasks_of s d else tasks_of s d')"
      using pool_inv_owner [OF inv, of a d'] d by (auto simp add: wd len split: if_splits)
  }
qed

lemma pop_unprotected_inv:
  assumes inv: "pool_inv s" and d: "d < length (work_lines s)"
    and head: "tasks_stack (work_lines s ! d) = Some res"
  shows "pool_inv (snd (pop_unprotected d s)) \<and>
    (\<forall>d' < length (work_lines (snd (pop_unprotected d s))).
       tasks_of (snd (pop_unprotected d s)) d' = (if d' = d then tl (tasks_of s d) else tasks_of s d'))"
proof (rule pool_invI)
  let ?s = "snd (pop_unprotected d s)"
  let ?N = "next_ptr (task_mem s res)"
  note eq = pop_unprotected_eq [OF head d]
  have len: "length (work_lines ?s) = length (work_lines s)"
    by (simp add: eq)
  have nxt: "next_ptr (task_mem ?s a) = next_ptr (task_mem s a)" for a
    by (simp add: eq)
  have prv: "prev_link (task_mem ?s a) =
      (if a = res then None else if Some a = ?N then Some (tasks_stack_of d)
       else prev_link (task_mem s a))" for a
    by (simp add: eq)
  have wd: "worker_data (task_mem ?s a) = (if a = res then None else worker_data (task_mem s a))" for a
    by (simp add: eq)
  note old = pool_inv_line [OF inv d]
  from old(1) head obtain rs where rs: "tasks_of s d = res # rs"
    by (cases "tasks_of s d") simp_all
  with old have dres: "dll (task_mem s) d (tasks_stack_of d) (Some res) (res # rs)"
    and dist: "distinct (res # rs)"
    using head by simp_all
  have N: "?N = (case rs of [] \<Rightarrow> None | z # _ \<Rightarrow> Some z)"
    using dll_next_at [of "task_mem s" d "tasks_stack_of d" "Some res" "[]" res rs] dres by simp
  {
    fix d' assume "d' < length (work_lines ?s)"
    then have d': "d' < length (work_lines s)" by (simp add: len)
    show "dll (task_mem ?s) d' (tasks_stack_of d') (tasks_stack (work_lines ?s ! d'))
            (if d' = d then tl (tasks_of s d) else tasks_of s d') \<and>
          distinct (if d' = d then tl (tasks_of s d) else tasks_of s d')"
    proof (cases "d' = d")
      case True
      have "tasks_stack (work_lines ?s ! d) = ?N"
        using d by (simp add: eq)
      moreover have "dll (task_mem ?s) d (tasks_stack_of d) ?N rs"
        using dres dist
      proof (rule dll_unlink_head)
        show "\<forall>a\<in>set rs. next_ptr (task_mem ?s a) = next_ptr (task_mem s a) \<and>
            worker_data (task_mem ?s a) = worker_data (task_mem s a) \<and>
            prev_link (task_mem ?s a) =
              (if Some a = ?N then Some (tasks_stack_of d) else prev_link (task_mem s a))"
          using dist by (auto simp add: nxt prv wd)
      qed
      ultimately show ?thesis using True rs dist by simp
    next
      case False
      note old' = pool_inv_line [OF inv d']
      have head': "tasks_stack (work_lines ?s ! d') = tasks_stack (work_lines s ! d')"
        using False by (simp add: eq)
      have "dll (task_mem ?s) d' (tasks_stack_of d') (tasks_stack (work_lines s ! d')) (tasks_of s d') =
          dll (task_mem s) d' (tasks_stack_of d') (tasks_stack (work_lines s ! d')) (tasks_of s d')"
      proof (rule dll_frame, intro ballI)
        fix a assume a: "a \<in> set (tasks_of s d')"
        then have own: "worker_data (task_mem s a) = Some d'"
          by (rule pool_inv_member [OF inv d'])
        have "a \<notin> set (tasks_of s d)"
          using pool_inv_member [OF inv d, of a] own False by auto
        then have "a \<noteq> res" "Some a \<noteq> ?N"
          using rs N by (auto split: list.splits)
        then show "next_ptr (task_mem ?s a) = next_ptr (task_mem s a) \<and>
            prev_link (task_mem ?s a) = prev_link (task_mem s a) \<and>
            worker_data (task_mem ?s a) = worker_data (task_mem s a)"
          by (simp add: nxt prv wd)
      qed
      with old' False head' show ?thesis by simp
    qed
  }
  {
    fix a d' assume "worker_data (task_mem ?s a) = Some d'"
    then show "d' < length (work_lines ?s) \<and>
        a \<in> set (if d' = d then tl (tasks_of s d) else tasks_of s d')"
      using pool_inv_owner [OF inv, of a d'] rs by (auto simp add: wd len split: if_splits)
  }
qed

lemma pop_unprotected_result:
  assumes inv: "pool_inv s" and d: "d < length (work_lines s)"
    and head: "tasks_stack (work_lines s ! d) = Some res"
  shows "fst (pop_unprotected d s) = Some res" and "tasks_of s d \<noteq> []" and "hd (tasks_of s d) = res"
    and "worker_data (task_mem (snd (pop_unprotected d s)) res) = None"
    and "prev_link (task_mem (snd (pop_unprotected d s)) res) = None"
  using pool_inv_line(1) [OF inv d] head
  by (cases "tasks_of s d"; simp add: pop_unprotected_eq [OF head d])+

lemma lock_wait_tasks_stack:
  "tasks_stack (work_lines (lock_wait d s) ! d') = tasks_stack (work_lines s ! d')"
  by (cases "d < length (work_lines s)") (simp_all add: lock_wait_def nth_list_update list_update_beyond)

lemma lock_wait_tasks_of: "tasks_of (lock_wait d s) d' = tasks_of s d'"
  by (simp add: tasks_of_def lock_wait_tasks_stack) (simp add: lock_wait_def)

lemma lock_wait_inv: "pool_inv (lock_wait d s) = pool_inv s"
  by (simp add: pool_inv_def line_inv_def lock_wait_tasks_of lock_wait_tasks_stack)
    (simp add: lock_wait_def)

lemma work_line_extract_task_attached:
  assumes inv: "pool_inv s" and own: "worker_data (task_mem s t) = Some d0"
  shows "\<exists>s'. work_line_extract_task d t s = Some (True, s') \<and> pool_inv s' \<and>
    length (work_lines s') = length (work_lines s) \<and>
    (\<forall>d' < length (work_lines s'). tasks_of s' d' = remove1 t (tasks_of s d')) \<and>
    worker_data (task_mem s' t) = None \<and> prev_link (task_mem s' t) = None \<and>
    num_tasks s' = num_tasks s \<and> threads s' = threads s \<and> executed s' = executed s \<and>
    joined s' = joined s \<and> line_to_push_to s' = line_to_push_to s \<and>
    stop_requested s' = stop_requested s"
proof -
  note d0 = pool_inv_owner [OF inv own]
  note old = pool_inv_line [OF inv d0(1)]
  from d0(2) obtain ys zs where split: "tasks_of s d0 = ys @ t # zs"
    by (auto simp add: in_set_conv_decomp)
  let ?T = "next_ptr (task_mem s t)"
  define link where "link = (if ys = [] then tasks_stack_of d0 else next_of (last ys))"
  have T: "?T = (case zs of [] \<Rightarrow> None | z # _ \<Rightarrow> Some z)"
    using old(1) unfolding split by (rule dll_next_at)
  have pl: "prev_link (task_mem s t) = Some link"
    using old(1) unfolding split link_def by (rule dll_prev_at)
  have wild: "case link of tasks_stack_of d1 \<Rightarrow> d1 < length (work_lines s) | next_of b \<Rightarrow> True"
    using d0(1) by (simp add: link_def)
  have "worker_data (task_mem s t) \<noteq> None" using own by simp
  note eq = work_line_extract_task_eq [OF this pl wild, of d]
  define s' where "s' = s\<lparr>task_mem := (\<lambda>a.
           \<lparr>next_ptr = (if link = next_of a then ?T else next_ptr (task_mem s a)),
            prev_link = (if a = t then None else if Some a = ?T then Some link
                         else prev_link (task_mem s a)),
            worker_data = (if a = t then None else worker_data (task_mem s a))\<rparr>),
       work_lines :=
         (case link of
            tasks_stack_of d1 \<Rightarrow>
              ((work_lines s)[d := (work_lines s ! d)\<lparr>bottleneck := False\<rparr>])
                [d1 := ((work_lines s)[d := (work_lines s ! d)\<lparr>bottleneck := False\<rparr>] ! d1)
                         \<lparr>tasks_stack := ?T\<rparr>]
          | next_of b \<Rightarrow> (work_lines s)[d := (work_lines s ! d)\<lparr>bottleneck := False\<rparr>])\<rparr>"
  have s': "work_line_extract_task d t s = Some (True, s')"
    using eq by (simp add: s'_def)
  have mem: "task_mem s' = (\<lambda>a.
           \<lparr>next_ptr = (if link = next_of a then ?T else next_ptr (task_mem s a)),
            prev_link = (if a = t then None else if Some a = ?T then Some link
                         else prev_link (task_mem s a)),
            worker_data = (if a = t then None else worker_data (task_mem s a))\<rparr>)"
    and lines: "work_lines s' =
         (case link of
            tasks_stack_of d1 \<Rightarrow>
              ((work_lines s)[d := (work_lines s ! d)\<lparr>bottleneck := False\<rparr>])
                [d1 := ((work_lines s)[d := (work_lines s ! d)\<lparr>bottleneck := False\<rparr>] ! d1)
                         \<lparr>tasks_stack := ?T\<rparr>]
          | next_of b \<Rightarrow> (work_lines s)[d := (work_lines s ! d)\<lparr>bottleneck := False\<rparr>])"
    and rest: "num_tasks s' = num_tasks s" "threads s' = threads s" "executed s' = executed s"
      "joined s' = joined s" "line_to_push_to s' = line_to_push_to s"
      "stop_requested s' = stop_requested s"
    by (simp_all add: s'_def)
  have len: "length (work_lines s') = length (work_lines s)"
    by (cases link) (simp_all add: lines)
  have head': "tasks_stack (work_lines s' ! d') =
      (if link = tasks_stack_of d' then ?T else tasks_stack (work_lines s ! d'))"
    if "d' < length (work_lines s)" for d'
    using that by (cases link; cases "d' = d") (auto simp add: lines nth_list_update)
  have nxt: "next_ptr (task_mem s' a) = (if link = next_of a then ?T else next_ptr (task_mem s a))" for a
    by (simp add: mem)
  have prv: "prev_link (task_mem s' a) =
      (if a = t then None else if Some a = ?T then Some link else prev_link (task_mem s a))" for a
    by (simp add: mem)
  have wd: "worker_data (task_mem s' a) = (if a = t then None else worker_data (task_mem s a))" for a
    by (simp add: mem)
  have dist: "distinct (ys @ t # zs)" using old(2) split by simp
  have elsewhere: "a \<noteq> t \<and> link \<noteq> next_of a \<and> Some a \<noteq> ?T"
    if "a \<notin> set (tasks_of s d0)" for a
    using that by (auto simp add: split T link_def split: list.splits)
  have "pool_inv s' \<and> (\<forall>d' < length (work_lines s'). tasks_of s' d' = remove1 t (tasks_of s d'))"
  proof (rule pool_invI)
    fix d' assume "d' < length (work_lines s')"
    then have d': "d' < length (work_lines s)" by (simp add: len)
    show "dll (task_mem s') d' (tasks_stack_of d') (tasks_stack (work_lines s' ! d'))
            (remove1 t (tasks_of s d')) \<and> distinct (remove1 t (tasks_of s d'))"
    proof (cases "d' = d0")
      case True
      have rm: "remove1 t (tasks_of s d0) = ys @ zs"
        using dist by (simp add: split remove1_append)
      have "dll (task_mem s') d0 (tasks_stack_of d0) (tasks_stack (work_lines s' ! d0)) (ys @ zs)"
      proof (cases "ys = []")
        case True
        then have l: "link = tasks_stack_of d0" by (simp add: link_def)
        have "dll (task_mem s) d0 (tasks_stack_of d0) (tasks_stack (work_lines s ! d0)) (t # zs)"
          using old(1) True by (simp add: split)
        then have "dll (task_mem s') d0 (tasks_stack_of d0) ?T zs"
        proof (rule dll_unlink_head)
          show "distinct (t # zs)" using dist by simp
          show "\<forall>a\<in>set zs. next_ptr (task_mem s' a) = next_ptr (task_mem s a) \<and>
              worker_data (task_mem s' a) = worker_data (task_mem s a) \<and>
              prev_link (task_mem s' a) =
                (if Some a = ?T then Some (tasks_stack_of d0) else prev_link (task_mem s a))"
            using dist by (auto simp add: nxt prv wd l)
        qed
        then show ?thesis using True l d0(1) by (simp add: head')
      next
        case False
        then obtain ys' b where ys: "ys = ys' @ [b]"
          by (metis append_butlast_last_id)
        then have l: "link = next_of b" by (simp add: link_def)
        have "dll (task_mem s) d0 (tasks_stack_of d0) (tasks_stack (work_lines s ! d0))
            (ys' @ b # t # zs)"
          using old(1) by (simp add: split ys)
        then have "dll (task_mem s') d0 (tasks_stack_of d0) (tasks_stack (work_lines s ! d0))
            (ys' @ b # zs)"
        proof (rule dll_unlink_interior)
          show "distinct (ys' @ b # t # zs)" using dist by (simp add: ys)
        qed (simp_all add: nxt prv wd l)
        then show ?thesis using l d0(1) by (simp add: head' ys)
      qed
      then show ?thesis using True rm dist by simp
    next
      case False
      note old' = pool_inv_line [OF inv d']
      have notin: "a \<notin> set (tasks_of s d0)" if "a \<in> set (tasks_of s d')" for a
        using pool_inv_member [OF inv d' that] pool_inv_member [OF inv d0(1), of a] False by auto
      then have "t \<notin> set (tasks_of s d')" using d0(2) by auto
      then have rm: "remove1 t (tasks_of s d') = tasks_of s d'" by (rule remove1_idem)
      have "link \<noteq> tasks_stack_of d'" using False by (simp add: link_def)
      then have h: "tasks_stack (work_lines s' ! d') = tasks_stack (work_lines s ! d')"
        using d' by (simp add: head')
      have "dll (task_mem s') d' (tasks_stack_of d') (tasks_stack (work_lines s ! d')) (tasks_of s d') =
          dll (task_mem s) d' (tasks_stack_of d') (tasks_stack (work_lines s ! d')) (tasks_of s d')"
        using elsewhere notin by (intro dll_frame) (simp add: nxt prv wd)
      with old' rm h show ?thesis by simp
    qed
  next
    fix a d' assume "worker_data (task_mem s' a) = Some d'"
    then show "d' < length (work_lines s') \<and> a \<in> set (remove1 t (tasks_of s d'))"
      using pool_inv_owner [OF inv, of a d'] by (auto simp add: wd len split: if_splits)
  qed
  with s' len rest show ?thesis by (simp add: wd prv)
qed

lemma work_line_extract_task_inv:
  assumes inv: "pool_inv s"
  shows "\<exists>s'. work_line_extract_task d t s = Some (worker_data (task_mem s t) \<noteq> None, s') \<and>
    pool_inv s' \<and> length (work_lines s') = length (work_lines s) \<and>
    (\<forall>d' < length (work_lines s'). tasks_of s' d' = remove1 t (tasks_of s d')) \<and>
    worker_data (task_mem s' t) = None \<and>
    num_tasks s' = num_tasks s \<and> threads s' = threads s \<and> executed s' = executed s \<and>
    joined s' = joined s \<and> line_to_push_to s' = line_to_push_to s \<and>
    stop_requested s' = stop_requested s"
proof (cases "worker_data (task_mem s t)")
  case None
  have "t \<notin> set (tasks_of s d')" if "d' < length (work_lines s)" for d'
    using pool_inv_member [OF inv that, of t] None by auto
  then have "\<forall>d' < length (work_lines s). tasks_of s d' = remove1 t (tasks_of s d')"
    by (simp add: remove1_idem)
  with None inv show ?thesis
    by (simp add: work_line_extract_task_detached lock_wait_inv lock_wait_tasks_of)
      (simp add: lock_wait_def)
next
  case (Some d0)
  with work_line_extract_task_attached [OF inv Some, of d] show ?thesis by auto
qed

lemma lock_wait_length [simp]: "length (work_lines (lock_wait d s)) = length (work_lines s)"
  by (simp add: lock_wait_def)

lemma lock_wait_task_mem [simp]: "task_mem (lock_wait d s) = task_mem s"
  by (simp add: lock_wait_def)

lemma push_unprotected_length [simp]:
  "length (work_lines (push_unprotected d t s)) = length (work_lines s)"
  by (simp add: push_unprotected_eq)

lemma push_inv:
  assumes inv: "pool_inv s" and d: "d < length (work_lines s)"
    and det: "worker_data (task_mem s t) = None"
  shows "pool_inv (push d t s) \<and> length (work_lines (push d t s)) = length (work_lines s) \<and>
    (\<forall>d' < length (work_lines s).
       tasks_of (push d t s) d' = (if d' = d then t # tasks_of s d else tasks_of s d'))"
proof -
  let ?s0 = "lock_wait d s"
  have "pool_inv ?s0" "d < length (work_lines ?s0)" "worker_data (task_mem ?s0 t) = None"
    using assms by (simp_all add: lock_wait_inv)
  from push_unprotected_inv [OF this] show ?thesis
    by (simp add: push_def lock_wait_tasks_of)
qed

lemma try_push_inv:
  assumes inv: "pool_inv s" and d: "d < length (work_lines s)"
    and det: "worker_data (task_mem s t) = None"
  shows "pool_inv (snd (try_push d t s)) \<and>
    length (work_lines (snd (try_push d t s))) = length (work_lines s) \<and>
    fst (try_push d t s) = (\<not> bottleneck (work_lines s ! d)) \<and>
    (\<forall>d' < length (work_lines s).
       tasks_of (snd (try_push d t s)) d' =
         (if d' = d \<and> \<not> bottleneck (work_lines s ! d) then t # tasks_of s d else tasks_of s d'))"
  using push_unprotected_inv [OF assms] inv
  by (simp add: try_push_def)

lemma try_pop_unchanged: "fst (try_pop d s) = None \<Longrightarrow> snd (try_pop d s) = s"
  by (auto simp add: try_pop_def pop_unprotected_def Let_def split: option.splits if_splits)

lemma try_pop_inv:
  assumes inv: "pool_inv s" and d: "d < length (work_lines s)"
  shows "pool_inv (snd (try_pop d s)) \<and>
    length (work_lines (snd (try_pop d s))) = length (work_lines s) \<and>
    fst (try_pop d s) =
      (if bottleneck (work_lines s ! d) then None
       else case tasks_of s d of [] \<Rightarrow> None | a # _ \<Rightarrow> Some a) \<and>
    (\<forall>d' < length (work_lines s).
       tasks_of (snd (try_pop d s)) d' =
         (if d' = d \<and> \<not> bottleneck (work_lines s ! d) then tl (tasks_of s d) else tasks_of s d')) \<and>
    (\<forall>a. fst (try_pop d s) = Some a \<longrightarrow>
       worker_data (task_mem (snd (try_pop d s)) a) = None \<and>
       prev_link (task_mem (snd (try_pop d s)) a) = None)"
proof (cases "bottleneck (work_lines s ! d) \<or> tasks_stack (work_lines s ! d) = None")
  case True
  then have "try_pop d s = (None, s)" by (simp add: try_pop_def)
  moreover have "tasks_of s d = []" if "tasks_stack (work_lines s ! d) = None"
    using that by (simp add: tasks_of_def)
  ultimately show ?thesis using inv True by auto
next
  case False
  then obtain res where head: "tasks_stack (work_lines s ! d) = Some res" by auto
  have tp: "try_pop d s = pop_unprotected d s" using False by (auto simp add: try_pop_def)
  note r = pop_unprotected_result [OF inv d head]
  have len: "length (work_lines (snd (pop_unprotected d s))) = length (work_lines s)"
    by (simp add: pop_unprotected_eq [OF head d])
  from r(2,3) have "(case tasks_of s d of [] \<Rightarrow> None | a # _ \<Rightarrow> Some a) = Some res"
    by (cases "tasks_of s d") simp_all
  with pop_unprotected_inv [OF inv d head] r False len show ?thesis
    by (simp add: tp)
qed

subsection \<open>The work line as a stack\<close>

lemma dll_check_list:
  assumes "dll (task_mem s) d link p as" and "load_slot s link = p"
    and "case link of tasks_stack_of d' \<Rightarrow> d' < length (work_lines s) | next_of b \<Rightarrow> True"
  shows "check_list s p d = Some True"
  using assms
proof (induction as arbitrary: link p)
  case Nil
  then show ?case by (simp add: check_list.simps)
next
  case (Cons a as)
  then have p: "p = Some a" and a: "prev_link (task_mem s a) = Some link"
    "worker_data (task_mem s a) = Some d" "load_slot s link = Some a"
    and tl: "dll (task_mem s) d (next_of a) (next_ptr (task_mem s a)) as"
    by simp_all
  have "check_list s (next_ptr (task_mem s a)) d = Some True"
    using tl by (rule Cons.IH) simp_all
  moreover have "\<not> (case link of tasks_stack_of d' \<Rightarrow> length (work_lines s) \<le> d' | next_of b \<Rightarrow> False)"
    using Cons.prems(3) by (cases link) simp_all
  ultimately show ?case
    using a by (subst check_list.simps) (simp add: p)
qed

lemma dll_links:
  assumes "dll (task_mem s) d link p as" and "load_slot s link = p"
  shows "\<forall>a \<in> set as. \<exists>l. prev_link (task_mem s a) = Some l \<and> load_slot s l = Some a"
  using assms
proof (induction as arbitrary: link p)
  case Nil
  then show ?case by simp
next
  case (Cons a as)
  then have "dll (task_mem s) d (next_of a) (next_ptr (task_mem s a)) as" by simp
  then have "\<forall>b \<in> set as. \<exists>l. prev_link (task_mem s b) = Some l \<and> load_slot s l = Some b"
    by (rule Cons.IH) simp
  with Cons.prems show ?case by simp
qed

lemma work_line_run_inv:
  assumes "work_line_run d s s'" and "pool_inv s" and "d < length (work_lines s)"
  shows "pool_inv s' \<and> length (work_lines s') = length (work_lines s)"
  using assms
proof (induction rule: work_line_run.induct)
  case run_start
  then show ?case by simp
next
  case (run_push s1 t)
  then show ?case using push_inv [of s1 d t] by simp
next
  case (run_try_push s1 t)
  then show ?case using try_push_inv [of s1 d t] by simp
next
  case (run_try_pop s1)
  then show ?case using try_pop_inv [of s1 d] by simp
next
  case (run_extract s1 t r s2)
  then show ?case using work_line_extract_task_inv [of s1 d t] by auto
qed

text \<open>
  Claim C6. In a pool whose lines are well formed, after any sequence of \<open>push\<close>,
  \<open>try_push\<close>, \<open>try_pop\<close> and \<open>extract_task\<close> calls on a work line (the client
  pushing only tasks that are in no line), the pool and the line are well formed again:
  the tasks reachable from the head are \<open>tasks_of\<close>, each has the line as its
  \<open>worker_data_\<close> and a \<open>prev_link_\<close> that points at the pointer which points to the
  task, and \<open>check_list\<close> of the source passes. \<open>push\<close> puts the task in front of the
  list. \<open>try_pop\<close> returns the first task and removes it, clearing its \<open>worker_data_\<close>
  and \<open>prev_link_\<close>, and returns null on an empty line; when another thread holds the
  mutex of the line, it returns null and leaves the list alone.
\<close>

theorem work_line_invariant:
  assumes "pool_inv s" and "d < length (work_lines s)" and "work_line_run d s s'"
  shows "pool_inv s' \<and> line_inv s' d \<and>
    chain (task_mem s') (tasks_stack (work_lines s' ! d)) = Some (tasks_of s' d) \<and>
    (\<forall>a \<in> set (tasks_of s' d).
       worker_data (task_mem s' a) = Some d \<and>
       (\<exists>link. prev_link (task_mem s' a) = Some link \<and> load_slot s' link = Some a)) \<and>
    check_list s' (tasks_stack (work_lines s' ! d)) d = Some True \<and>
    (\<forall>t. worker_data (task_mem s' t) = None \<longrightarrow>
       tasks_of (push d t s') d = t # tasks_of s' d) \<and>
    fst (try_pop d s') =
      (if bottleneck (work_lines s' ! d) then None
       else case tasks_of s' d of [] \<Rightarrow> None | a # _ \<Rightarrow> Some a) \<and>
    tasks_of (snd (try_pop d s')) d =
      (if bottleneck (work_lines s' ! d) then tasks_of s' d else tl (tasks_of s' d)) \<and>
    (\<forall>a. fst (try_pop d s') = Some a \<longrightarrow>
       worker_data (task_mem (snd (try_pop d s')) a) = None \<and>
       prev_link (task_mem (snd (try_pop d s')) a) = None)"
proof -
  from work_line_run_inv [OF assms(3,1,2)]
  have inv: "pool_inv s'" and d: "d < length (work_lines s')"
    using assms(2) by simp_all
  note line = pool_inv_line [OF inv d]
  have "line_inv s' d"
    using line by (simp add: line_inv_def)
  moreover have "chain (task_mem s') (tasks_stack (work_lines s' ! d)) = Some (tasks_of s' d)"
    using line(1) by (rule dll_chain)
  moreover have "\<forall>a \<in> set (tasks_of s' d).
       worker_data (task_mem s' a) = Some d \<and>
       (\<exists>link. prev_link (task_mem s' a) = Some link \<and> load_slot s' link = Some a)"
    using dll_links [OF line(1)] pool_inv_member [OF inv d] by simp
  moreover have "check_list s' (tasks_stack (work_lines s' ! d)) d = Some True"
    using line(1) by (rule dll_check_list) (simp_all add: d)
  moreover have "\<forall>t. worker_data (task_mem s' t) = None \<longrightarrow>
       tasks_of (push d t s') d = t # tasks_of s' d"
    using push_inv [OF inv d] d by simp
  moreover note try_pop_inv [OF inv d]
  ultimately show ?thesis using inv d by simp
qed

lemma thread_pool_init_inv:
  assumes "\<forall>a. worker_data (mem a) = None"
  shows "pool_inv (thread_pool_init mem n)"
    and "d < n \<Longrightarrow> tasks_of (thread_pool_init mem n) d = []"
  using assms by (simp_all add: pool_inv_def line_inv_def tasks_of_def thread_pool_init_def)

theorem work_line_invariant_witness:
  "tasks_of (push 0 7 (push 0 5
      (thread_pool_init (\<lambda>a. \<lparr>next_ptr = None, prev_link = None, worker_data = None\<rparr>) 2))) 0 = [7, 5] \<and>
   check_list (push 0 5
      (thread_pool_init (\<lambda>a. \<lparr>next_ptr = None, prev_link = None, worker_data = None\<rparr>) 2))
     (Some 5) 0 = Some True \<and>
   fst (try_pop 0 (push 0 5
      (thread_pool_init (\<lambda>a. \<lparr>next_ptr = None, prev_link = None, worker_data = None\<rparr>) 2))) = Some 5"
proof -
  let ?s0 = "thread_pool_init (\<lambda>a. \<lparr>next_ptr = None, prev_link = None, worker_data = None\<rparr>) 2"
  let ?s1 = "push 0 5 ?s0"
  have inv: "pool_inv ?s0" by (rule thread_pool_init_inv) simp
  have d: "0 < length (work_lines ?s0)" by (simp add: thread_pool_init_def)
  have empty: "tasks_of ?s0 0 = []" by (rule thread_pool_init_inv) simp_all
  have det5: "worker_data (task_mem ?s0 5) = None" by (simp add: thread_pool_init_def)
  have run1: "work_line_run 0 ?s0 ?s1"
    using run_start det5 by (rule run_push)
  have det7: "worker_data (task_mem ?s1 7) = None"
    by (simp add: push_def push_unprotected_eq thread_pool_init_def)
  have head: "tasks_stack (work_lines ?s1 ! 0) = Some 5"
    by (simp add: push_def push_unprotected_eq lock_wait_def thread_pool_init_def)
  have free: "\<not> bottleneck (work_lines ?s1 ! 0)"
    by (simp add: push_def push_unprotected_eq lock_wait_def thread_pool_init_def)
  have one: "tasks_of ?s1 0 = [5]"
    using work_line_invariant [OF inv d run_start] det5 empty by simp
  show ?thesis
    using work_line_invariant [OF inv d run1] det7 head free one by simp
qed

text \<open>
  Two cases outside those conditions. A line that holds the task 5 while another thread
  holds its mutex: \<open>try_pop\<close> returns null and the task stays in the line. A task
  that is pushed onto a line it is already in: its \<open>next_\<close> points to the task itself,
  the head and that \<open>next_\<close> both point to it while its \<open>prev_link_\<close> is the head,
  and the line is no well-formed list any more.
\<close>

theorem work_line_contended_or_pushed_twice:
  "tasks_of ((push 0 5
       (thread_pool_init (\<lambda>a. \<lparr>next_ptr = None, prev_link = None, worker_data = None\<rparr>) 2))
     \<lparr>work_lines := [\<lparr>tasks_stack = Some 5, bottleneck = True\<rparr>,
                      \<lparr>tasks_stack = None, bottleneck = False\<rparr>]\<rparr>) 0 = [5] \<and>
   fst (try_pop 0 ((push 0 5
       (thread_pool_init (\<lambda>a. \<lparr>next_ptr = None, prev_link = None, worker_data = None\<rparr>) 2))
     \<lparr>work_lines := [\<lparr>tasks_stack = Some 5, bottleneck = True\<rparr>,
                      \<lparr>tasks_stack = None, bottleneck = False\<rparr>]\<rparr>)) = None \<and>
   tasks_of (snd (try_pop 0 ((push 0 5
       (thread_pool_init (\<lambda>a. \<lparr>next_ptr = None, prev_link = None, worker_data = None\<rparr>) 2))
     \<lparr>work_lines := [\<lparr>tasks_stack = Some 5, bottleneck = True\<rparr>,
                      \<lparr>tasks_stack = None, bottleneck = False\<rparr>]\<rparr>))) 0 = [5] \<and>
   tasks_stack (work_lines (push 0 5 (push 0 5
       (thread_pool_init (\<lambda>a. \<lparr>next_ptr = None, prev_link = None, worker_data = None\<rparr>) 2))) ! 0) =
     Some 5 \<and>
   next_ptr (task_mem (push 0 5 (push 0 5
       (thread_pool_init (\<lambda>a. \<lparr>next_ptr = None, prev_link = None, worker_data = None\<rparr>) 2))) 5) =
     Some 5 \<and>
   prev_link (task_mem (push 0 5 (push 0 5
       (thread_pool_init (\<lambda>a. \<lparr>next_ptr = None, prev_link = None, worker_data = None\<rparr>) 2))) 5) =
     Some (tasks_stack_of 0) \<and>
   load_slot (push 0 5 (push 0 5
       (thread_pool_init (\<lambda>a. \<lparr>next_ptr = None, prev_link = None, worker_data = None\<rparr>) 2)))
     (next_of 5) = Some 5 \<and>
   \<not> line_inv (push 0 5 (push 0 5
       (thread_pool_init (\<lambda>a. \<lparr>next_ptr = None, prev_link = None, worker_data = None\<rparr>) 2))) 0"
proof -
  let ?s0 = "thread_pool_init (\<lambda>a. \<lparr>next_ptr = None, prev_link = None, worker_data = None\<rparr>) 2"
  let ?sc = "(push 0 5 ?s0)\<lparr>work_lines := [\<lparr>tasks_stack = Some 5, bottleneck = True\<rparr>,
                      \<lparr>tasks_stack = None, bottleneck = False\<rparr>]\<rparr>"
  let ?s2 = "push 0 5 (push 0 5 ?s0)"
  have c: "tasks_of ?sc 0 = [5]"
    by (simp add: tasks_of_def chain_Some chain_None push_def push_unprotected_eq lock_wait_def
        thread_pool_init_def)
  have p: "try_pop 0 ?sc = (None, ?sc)" by (simp add: try_pop_def)
  have m: "tasks_stack (work_lines ?s2 ! 0) = Some 5" "next_ptr (task_mem ?s2 5) = Some 5"
    "prev_link (task_mem ?s2 5) = Some (tasks_stack_of 0)"
    by (simp_all add: push_def push_unprotected_eq lock_wait_def thread_pool_init_def)
  have "\<not> dll (task_mem ?s2) 0 (tasks_stack_of 0) (Some 5) xs" for xs
  proof (cases xs)
    case Nil
    then show ?thesis by simp
  next
    case (Cons a as)
    then show ?thesis using m(2,3) by (cases as) auto
  qed
  then have "\<not> line_inv ?s2 0" by (simp add: line_inv_def m(1))
  then show ?thesis using c p m by simp
qed

section \<open>Properties of the pool operations\<close>

lemma tasks_of_cong:
  "task_mem s' = task_mem s \<Longrightarrow> work_lines s' = work_lines s \<Longrightarrow> tasks_of s' = tasks_of s"
  by (rule ext) (simp add: tasks_of_def)

lemma pool_inv_cong:
  "task_mem s' = task_mem s \<Longrightarrow> work_lines s' = work_lines s \<Longrightarrow> pool_inv s' = pool_inv s"
  using tasks_of_cong [of s' s] by (simp add: pool_inv_def line_inv_def)

lemma held_tasks_cong:
  "task_mem s' = task_mem s \<Longrightarrow> work_lines s' = work_lines s \<Longrightarrow> held_tasks s' = held_tasks s"
  using tasks_of_cong [of s' s] by (simp add: held_tasks_def)

lemma notify_one_frame [simp]:
  "task_mem (notify_one hint s) = task_mem s" "work_lines (notify_one hint s) = work_lines s"
  "num_tasks (notify_one hint s) = num_tasks s + 1" "executed (notify_one hint s) = executed s"
  by (simp_all add: notify_one_def Let_def)

lemma enqueue_prepare_inv:
  assumes inv: "pool_inv s" and det: "worker_data (task_mem s t) = None"
  defines "s' \<equiv> (set_prev_link t None (set_next t None s))\<lparr>line_to_push_to := line_to_push_to s + 1\<rparr>"
  shows "pool_inv s'" and "d < length (work_lines s) \<Longrightarrow> tasks_of s' d = tasks_of s d"
    and "work_lines s' = work_lines s"
    and "worker_data (task_mem s' t) = None"
    and "num_tasks s' = num_tasks s" and "executed s' = executed s"
proof -
  have lines: "work_lines s' = work_lines s"
    by (simp add: s'_def set_prev_link_def set_next_def)
  have wd: "worker_data (task_mem s' a) = worker_data (task_mem s a)" for a
    by (simp add: s'_def set_prev_link_def set_next_def)
  have other: "task_mem s' a = task_mem s a" if "a \<noteq> t" for a
    using that by (simp add: s'_def set_prev_link_def set_next_def)
  have "pool_inv s' \<and> (\<forall>d < length (work_lines s'). tasks_of s' d = tasks_of s d)"
  proof (rule pool_invI)
    fix d assume "d < length (work_lines s')"
    then have d: "d < length (work_lines s)" by (simp add: lines)
    have "a \<noteq> t" if "a \<in> set (tasks_of s d)" for a
      using pool_inv_member [OF inv d that] det by auto
    then have "dll (task_mem s') d (tasks_stack_of d) (tasks_stack (work_lines s ! d)) (tasks_of s d) =
        dll (task_mem s) d (tasks_stack_of d) (tasks_stack (work_lines s ! d)) (tasks_of s d)"
      by (intro dll_frame) (simp add: other)
    with pool_inv_line [OF inv d]
    show "dll (task_mem s') d (tasks_stack_of d) (tasks_stack (work_lines s' ! d)) (tasks_of s d) \<and>
        distinct (tasks_of s d)"
      by (simp add: lines)
  next
    fix a d assume "worker_data (task_mem s' a) = Some d"
    then show "d < length (work_lines s') \<and> a \<in> set (tasks_of s d)"
      using pool_inv_owner [OF inv, of a d] by (simp add: wd lines)
  qed
  then show "pool_inv s'" and "d < length (work_lines s) \<Longrightarrow> tasks_of s' d = tasks_of s d"
    by (simp_all add: lines)
  show "work_lines s' = work_lines s" by (rule lines)
  show "worker_data (task_mem s' t) = None" using det by (simp add: wd)
  show "num_tasks s' = num_tasks s" "executed s' = executed s"
    by (simp_all add: s'_def set_prev_link_def set_next_def)
qed

lemma line_count_word:
  fixes counter :: "32 word"
  assumes "0 < n" and "n < 2 ^ 31"
  defines "wlc \<equiv> (word_of_nat n :: 32 word)"
  shows "wlc \<noteq> 0" and "unat wlc = n" and "unat (counter mod wlc) = unat counter mod n"
    and "unat (counter mod wlc mod wlc) = unat counter mod n"
proof -
  have n32: "n < 2 ^ 32" using assms(2) by simp
  show wn: "unat wlc = n" using n32 by (simp add: wlc_def unat_of_nat)
  show "wlc \<noteq> 0" using wn assms(1) by auto
  show "unat (counter mod wlc) = unat counter mod n" by (simp add: unat_mod wn)
  show "unat (counter mod wlc mod wlc) = unat counter mod n"
    by (simp add: unat_mod wn)
qed

lemma line_index_arith:
  fixes counter :: "32 word"
  assumes "0 < n" and "n < 2 ^ 31" and "i < n"
  defines "wlc \<equiv> (word_of_nat n :: 32 word)"
  shows "unat ((counter mod wlc + word_of_nat i) mod wlc) = (unat counter mod n + i) mod n"
proof -
  have wn: "unat wlc = n" and m: "unat (counter mod wlc) = unat counter mod n"
    unfolding wlc_def using assms(1,2) by (rule line_count_word)+
  have "i < 2 ^ 32" using assms(2,3) by simp
  then have ui: "unat (word_of_nat i :: 32 word) = i" by (simp add: unat_of_nat)
  have "unat counter mod n < n" using assms(1) by simp
  then have "unat counter mod n + i < n + n"
    using assms(3) by linarith
  moreover have "n + n < 2 ^ 32"
    using assms(2) by simp
  ultimately have "unat counter mod n + i < 2 ^ 32"
    by (rule less_trans)
  then have "unat (counter mod wlc) + unat (word_of_nat i :: 32 word) < 2 ^ 32"
    by (simp add: m ui)
  then have "unat (counter mod wlc + word_of_nat i) = unat counter mod n + i"
    using unat_add_lem [of "counter mod wlc" "word_of_nat i"] by (simp add: m ui)
  then show ?thesis
    by (simp add: unat_mod wn)
qed

lemma enqueue_try_find:
  assumes "\<forall>i \<in> set is. unat ((index + word_of_nat i) mod wlc) = h i \<and> h i < 2 ^ 31"
  shows "enqueue_try t index wlc is s =
     (case find (\<lambda>j. \<not> bottleneck (work_lines s ! j)) (map h is) of
        Some j \<Rightarrow> Some (notify_one (int j) (push_unprotected j t s))
      | None \<Rightarrow> None)"
  using assms
proof (induction "is")
  case Nil
  show ?case by simp
next
  case (Cons i "is")
  let ?c = "(index + word_of_nat i) mod wlc"
  from Cons.prems have c: "unat ?c = h i" "unat ?c < 2 ^ 31" by simp_all
  then have sc: "sint ?c = int (h i)" by (simp add: sint_small)
  show ?case
  proof (cases "bottleneck (work_lines s ! h i)")
    case True
    then show ?thesis using Cons c by (simp add: try_push_def)
  next
    case False
    then show ?thesis using c sc by (simp add: try_push_def)
  qed
qed

text \<open>
  Claim C3. In a pool with \<open>N > 0\<close> work lines (\<open>N\<close> fits an \<open>int\<close>, the type the
  constructor takes), \<open>enqueue(t)\<close> clears the task's \<open>next_\<close> and \<open>prev_link_\<close>,
  advances the counter and takes \<open>start\<close>, the old counter modulo \<open>N\<close>. It goes
  through the lines \<open>(start + k) mod N\<close> for \<open>k = 0, \<dots>, N - 1\<close> in this order; on the
  first line whose mutex it can take it pushes the task and calls \<open>notify_one\<close> with
  that line. When it can take no mutex, it pushes on the line \<open>start\<close>, waiting for the
  mutex, and calls \<open>notify_one\<close> with \<open>start\<close>.
\<close>

theorem enqueue_round_robin:
  assumes "0 < length (work_lines s)" and "length (work_lines s) < 2 ^ 31"
  shows "enqueue t s =
     (let n = length (work_lines s);
          start = unat (line_to_push_to s) mod n;
          s0 = (set_prev_link t None (set_next t None s))\<lparr>line_to_push_to := line_to_push_to s + 1\<rparr>
      in Some (case find (\<lambda>j. \<not> bottleneck (work_lines s ! j))
                      (map (\<lambda>k. (start + k) mod n) [0..<n]) of
                 Some j \<Rightarrow> notify_one (int j) (push_unprotected j t s0)
               | None \<Rightarrow> notify_one (int start) (push start t s0)))"
proof -
  let ?n = "length (work_lines s)"
  let ?wlc = "word_of_nat ?n :: 32 word"
  let ?index = "line_to_push_to s mod ?wlc"
  let ?start = "unat (line_to_push_to s) mod ?n"
  let ?s0 = "(set_prev_link t None (set_next t None s))\<lparr>line_to_push_to := line_to_push_to s + 1\<rparr>"
  have lines: "work_lines (set_prev_link t None (set_next t None s)) = work_lines s"
    "work_lines ?s0 = work_lines s"
    by (simp_all add: set_prev_link_def set_next_def)
  have ctr: "line_to_push_to (set_prev_link t None (set_next t None s)) = line_to_push_to s"
    by (simp add: set_prev_link_def set_next_def)
  note ar = line_index_arith [OF assms, of _ "line_to_push_to s"]
  have n0: "?wlc \<noteq> 0" and wn: "unat ?wlc = ?n"
    using assms by (rule line_count_word)+
  have small: "k mod ?n < 2 ^ 31" for k
    using mod_less_divisor [OF assms(1)] assms(2) by (rule less_trans)
  have start: "unat (?index mod ?wlc) = ?start" "?start < 2 ^ 31"
    using line_count_word(4) [OF assms, of "line_to_push_to s"] small by simp_all
  have "\<forall>i \<in> set [0..<?n]. unat ((?index + word_of_nat i) mod ?wlc) = (?start + i) mod ?n \<and>
      (?start + i) mod ?n < 2 ^ 31"
    using ar small by simp
  then have loop: "enqueue_try t ?index ?wlc [0..<?n] ?s0 =
     (case find (\<lambda>j. \<not> bottleneck (work_lines s ! j)) (map (\<lambda>k. (?start + k) mod ?n) [0..<?n]) of
        Some j \<Rightarrow> Some (notify_one (int j) (push_unprotected j t ?s0))
      | None \<Rightarrow> None)"
    using enqueue_try_find [of "[0..<?n]" ?index ?wlc "\<lambda>k. (?start + k) mod ?n" t ?s0]
    by (simp only: lines)
  have fb: "sint (?index mod ?wlc) = int ?start"
    using start by (simp add: sint_small)
  show ?thesis
    using n0 loop fb start(1)
    by (simp add: enqueue_def Let_def lines ctr wn split: option.splits)
qed

theorem enqueue_round_robin_witness:
  "(\<exists>s'. enqueue 5
      ((thread_pool_init (\<lambda>a. \<lparr>next_ptr = None, prev_link = None, worker_data = None\<rparr>) 2)
         \<lparr>work_lines := [\<lparr>tasks_stack = None, bottleneck = False\<rparr>,
                          \<lparr>tasks_stack = None, bottleneck = True\<rparr>],
           line_to_push_to := 1\<rparr>) = Some s' \<and>
      map tasks_stack (work_lines s') = [Some 5, None] \<and> num_tasks s' = 1 \<and>
      line_to_push_to s' = 2 \<and> map wake_requests (threads s') = [2, 2]) \<and>
   (\<exists>s'. enqueue 5
      ((thread_pool_init (\<lambda>a. \<lparr>next_ptr = None, prev_link = None, worker_data = None\<rparr>) 2)
         \<lparr>work_lines := [\<lparr>tasks_stack = None, bottleneck = True\<rparr>,
                          \<lparr>tasks_stack = None, bottleneck = True\<rparr>],
           line_to_push_to := 1\<rparr>) = Some s' \<and>
      map tasks_stack (work_lines s') = [None, Some 5] \<and> num_tasks s' = 1)"
proof -
  let ?mem = "\<lambda>a::nat. \<lparr>next_ptr = None, prev_link = None, worker_data = None\<rparr>"
  let ?s1 = "(thread_pool_init ?mem 2)
         \<lparr>work_lines := [\<lparr>tasks_stack = None, bottleneck = False\<rparr>,
                          \<lparr>tasks_stack = None, bottleneck = True\<rparr>],
           line_to_push_to := 1\<rparr>"
  let ?s2 = "(thread_pool_init ?mem 2)
         \<lparr>work_lines := [\<lparr>tasks_stack = None, bottleneck = True\<rparr>,
                          \<lparr>tasks_stack = None, bottleneck = True\<rparr>],
           line_to_push_to := 1\<rparr>"
  let ?p1 = "(set_prev_link 5 None (set_next 5 None ?s1))\<lparr>line_to_push_to := line_to_push_to ?s1 + 1\<rparr>"
  let ?p2 = "(set_prev_link 5 None (set_next 5 None ?s2))\<lparr>line_to_push_to := line_to_push_to ?s2 + 1\<rparr>"
  have up: "[0..<2] = [0, Suc 0]" by (simp add: upt_conv_Cons)
  have "0 < length (work_lines ?s1)" "length (work_lines ?s1) < 2 ^ 31"
    by simp_all
  from enqueue_round_robin [OF this, of 5]
  have "enqueue 5 ?s1 = Some (notify_one 0 (push_unprotected 0 5 ?p1))"
    by (simp add: up Let_def)
  moreover have "map tasks_stack (work_lines (notify_one 0 (push_unprotected 0 5 ?p1))) = [Some 5, None]"
    "num_tasks (notify_one 0 (push_unprotected 0 5 ?p1)) = 1"
    "line_to_push_to (notify_one 0 (push_unprotected 0 5 ?p1)) = 2"
    "map wake_requests (threads (notify_one 0 (push_unprotected 0 5 ?p1))) = [2, 2]"
    by (simp_all add: push_unprotected_eq notify_one_def set_prev_link_def set_next_def
        thread_pool_init_def worker_thread_data_init_def try_notify_def numeral_2_eq_2)
  ultimately have one: "\<exists>s'. enqueue 5 ?s1 = Some s' \<and>
      map tasks_stack (work_lines s') = [Some 5, None] \<and> num_tasks s' = 1 \<and>
      line_to_push_to s' = 2 \<and> map wake_requests (threads s') = [2, 2]"
    by simp
  have "0 < length (work_lines ?s2)" "length (work_lines ?s2) < 2 ^ 31"
    by simp_all
  from enqueue_round_robin [OF this, of 5]
  have "enqueue 5 ?s2 = Some (notify_one 1 (push 1 5 ?p2))"
    by (simp add: up Let_def)
  moreover have "map tasks_stack (work_lines (notify_one 1 (push 1 5 ?p2))) = [None, Some 5]"
    "num_tasks (notify_one 1 (push 1 5 ?p2)) = 1"
    by (simp_all add: push_def lock_wait_def push_unprotected_eq notify_one_def
        set_prev_link_def set_next_def thread_pool_init_def)
  ultimately have two: "\<exists>s'. enqueue 5 ?s2 = Some s' \<and>
      map tasks_stack (work_lines s') = [None, Some 5] \<and> num_tasks s' = 1"
    by simp
  from one two show ?thesis by (rule conjI)
qed



lemma enqueue_try_Some:
  assumes "enqueue_try t index wlc is s = Some s'" and "wlc \<noteq> 0"
  shows "\<exists>j c. j < unat wlc \<and> s' = notify_one c (push_unprotected j t s) \<and>
    \<not> bottleneck (work_lines s ! j)"
  using assms
proof (induction "is")
  case Nil
  then show ?case by simp
next
  case (Cons i "is")
  let ?c = "(index + word_of_nat i) mod wlc"
  have "unat ?c < unat wlc"
    using Cons.prems(2) by (simp add: unat_mod unat_gt_0)
  then show ?case
  proof (cases "bottleneck (work_lines s ! unat ?c)")
    case True
    then have "enqueue_try t index wlc is s = Some s'"
      using Cons.prems(1) by (simp add: try_push_def)
    then show ?thesis using Cons.IH Cons.prems(2) by simp
  next
    case False
    then have "s' = notify_one (sint ?c) (push_unprotected (unat ?c) t s)"
      using Cons.prems(1) by (simp add: try_push_def Let_def)
    with False \<open>unat ?c < unat wlc\<close> show ?thesis by blast
  qed
qed

lemma enqueue_Some:
  assumes "enqueue t s = Some s'"
  defines "s0 \<equiv> (set_prev_link t None (set_next t None s))\<lparr>line_to_push_to := line_to_push_to s + 1\<rparr>"
  shows "\<exists>j c. j < length (work_lines s) \<and>
    (s' = notify_one c (push_unprotected j t s0) \<or> s' = notify_one c (push j t s0))"
proof -
  let ?wlc = "word_of_nat (length (work_lines s)) :: 32 word"
  let ?index = "line_to_push_to s mod ?wlc"
  have lines: "work_lines (set_prev_link t None (set_next t None s)) = work_lines s"
    and ctr: "line_to_push_to (set_prev_link t None (set_next t None s)) = line_to_push_to s"
    by (simp_all add: set_prev_link_def set_next_def)
  have le: "unat ?wlc \<le> length (work_lines s)"
    by (simp add: unat_of_nat)
  have n0: "?wlc \<noteq> 0"
  proof
    assume "?wlc = 0"
    then have "enqueue t s = None" by (simp add: enqueue_def Let_def lines)
    with assms(1) show False by simp
  qed
  have unfolded: "enqueue t s =
      (case enqueue_try t ?index ?wlc [0..<unat ?wlc] s0 of
         Some s4 \<Rightarrow> Some s4
       | None \<Rightarrow> Some (notify_one (sint (?index mod ?wlc)) (push (unat (?index mod ?wlc)) t s0)))"
    using n0 by (simp add: enqueue_def Let_def lines ctr s0_def split: option.splits)
  show ?thesis
  proof (cases "enqueue_try t ?index ?wlc [0..<unat ?wlc] s0")
    case None
    have "unat (?index mod ?wlc) < unat ?wlc"
      using n0 by (simp add: unat_mod unat_gt_0)
    then have "unat (?index mod ?wlc) < length (work_lines s)"
      using le by (rule less_le_trans)
    moreover have "s' = notify_one (sint (?index mod ?wlc)) (push (unat (?index mod ?wlc)) t s0)"
      using assms(1) None by (simp add: unfolded)
    ultimately show ?thesis by blast
  next
    case (Some s1)
    then have "s' = s1"
      using assms(1) by (simp add: unfolded)
    with enqueue_try_Some [OF Some n0] obtain j c where
      "j < unat ?wlc" "s' = notify_one c (push_unprotected j t s0)" by blast
    moreover from this(1) le have "j < length (work_lines s)" by (rule less_le_trans)
    ultimately show ?thesis by blast
  qed
qed

lemma enqueue_inv:
  assumes inv: "pool_inv s" and det: "worker_data (task_mem s t) = None"
    and enq: "enqueue t s = Some s'"
  shows "pool_inv s' \<and> length (work_lines s') = length (work_lines s) \<and>
    (\<exists>j < length (work_lines s). \<forall>d < length (work_lines s).
       tasks_of s' d = (if d = j then t # tasks_of s d else tasks_of s d)) \<and>
    num_tasks s' = num_tasks s + 1 \<and> executed s' = executed s"
proof -
  let ?s0 = "(set_prev_link t None (set_next t None s))\<lparr>line_to_push_to := line_to_push_to s + 1\<rparr>"
  note prep = enqueue_prepare_inv [OF inv det]
  from enqueue_Some [OF enq] obtain j c where j: "j < length (work_lines s)"
    and s': "s' = notify_one c (push_unprotected j t ?s0) \<or> s' = notify_one c (push j t ?s0)"
    by blast
  have j0: "j < length (work_lines ?s0)" using j by (simp add: prep(3))
  define s1 where "s1 = (if s' = notify_one c (push_unprotected j t ?s0)
    then push_unprotected j t ?s0 else push j t ?s0)"
  have s1: "s' = notify_one c s1" using s' by (auto simp add: s1_def)
  have core: "pool_inv s1 \<and> length (work_lines s1) = length (work_lines s) \<and>
      (\<forall>d < length (work_lines s). tasks_of s1 d = (if d = j then t # tasks_of s d else tasks_of s d))"
    using push_unprotected_inv [OF prep(1) j0 prep(4)] push_inv [OF prep(1) j0 prep(4)] prep(2)
    by (simp add: s1_def prep(3))
  have nt: "num_tasks s1 = num_tasks s" "executed s1 = executed s"
    using prep(5,6) by (simp_all add: s1_def push_def push_unprotected_eq lock_wait_def)
  have "pool_inv s'" "tasks_of s' = tasks_of s1"
    using core pool_inv_cong [of s' s1] tasks_of_cong [of s' s1] by (simp_all add: s1)
  with core nt j show ?thesis by (auto simp add: s1)
qed

lemma extract_task_inv:
  assumes inv: "pool_inv s"
  shows "\<exists>s'. extract_task t s = Some (worker_data (task_mem s t) \<noteq> None, s') \<and>
    (if worker_data (task_mem s t) \<noteq> None
     then pool_inv s' \<and> length (work_lines s') = length (work_lines s) \<and>
       (\<forall>d < length (work_lines s). tasks_of s' d = remove1 t (tasks_of s d)) \<and>
       worker_data (task_mem s' t) = None \<and> prev_link (task_mem s' t) = None \<and>
       num_tasks s' = num_tasks s - 1 \<and> executed s' = executed s
     else s' = s)"
proof (cases "worker_data (task_mem s t)")
  case None
  then show ?thesis by (simp add: extract_task_def)
next
  case (Some d0)
  note d0 = pool_inv_owner [OF inv Some]
  from work_line_extract_task_attached [OF inv Some, of d0]
  obtain s1 where s1: "work_line_extract_task d0 t s = Some (True, s1)" "pool_inv s1"
    "length (work_lines s1) = length (work_lines s)"
    "\<forall>d' < length (work_lines s1). tasks_of s1 d' = remove1 t (tasks_of s d')"
    "worker_data (task_mem s1 t) = None" "prev_link (task_mem s1 t) = None"
    "num_tasks s1 = num_tasks s" "executed s1 = executed s"
    by blast
  let ?s' = "s1\<lparr>num_tasks := num_tasks s1 - 1\<rparr>"
  have "extract_task t s = Some (True, ?s')"
    using Some d0(1) s1(1) by (simp add: extract_task_def)
  moreover have "pool_inv ?s'" "tasks_of ?s' = tasks_of s1"
    using s1(2) pool_inv_cong [of ?s' s1] tasks_of_cong [of ?s' s1] by simp_all
  ultimately show ?thesis using Some s1 by simp
qed

lemma c_rem_bound:
  assumes "0 < b" and "0 \<le> c_rem a b"
  shows "c_rem a b < b"
proof (cases "0 \<le> a")
  case True
  then have "c_rem a b = a mod b \<or> c_rem a b = 0"
    using assms(1) by (cases "a = 0") (simp_all add: c_rem_def)
  then show ?thesis using assms(1) by auto
next
  case False
  then have "c_rem a b = - (\<bar>a\<bar> mod b)" using assms(1) by (simp add: c_rem_def)
  moreover have "0 \<le> \<bar>a\<bar> mod b" using assms(1) by simp
  ultimately have "c_rem a b \<le> 0" by simp
  with assms show ?thesis by simp
qed

lemma sint_of_nat_le: "sint (word_of_nat n :: 32 word) \<le> int n"
proof (cases "n < 2 ^ 31")
  case True
  then show ?thesis by (simp add: sint_of_nat_small)
next
  case False
  have "sint (word_of_nat n :: 32 word) < 2 ^ (LENGTH(32) - 1)" by (rule sint_lt)
  then have "sint (word_of_nat n :: 32 word) < 2 ^ 31" by simp
  moreover have "(2 :: int) ^ 31 \<le> int n" using False by simp
  ultimately show ?thesis by simp
qed

lemma thread_main_sweep_Some:
  assumes "thread_main_sweep hint wlc is li s = Some (r, li', s')" and "is = [] \<or> 0 < wlc"
    and "wlc \<le> int n"
  shows "(r = None \<and> s' = s) \<or>
    (\<exists>d < n. li' = int d \<and> r = fst (try_pop d s) \<and> r \<noteq> None \<and> s' = snd (try_pop d s))"
  using assms
proof (induction "is" arbitrary: li)
  case Nil
  then show ?case by simp
next
  case (Cons i "is")
  let ?l = "c_rem (int i + hint) wlc"
  from Cons.prems have n: "0 < wlc" by simp
  from Cons.prems(1) have ov: "\<not> (int i + hint < - (2 ^ 31) \<or> 2 ^ 31 \<le> int i + hint)"
    by (cases "int i + hint < - (2 ^ 31) \<or> 2 ^ 31 \<le> int i + hint") simp_all
  from Cons.prems(1) ov have l0: "0 \<le> ?l"
    by (cases "?l < 0") (simp_all add: Let_def)
  then have "?l < wlc" using c_rem_bound [of wlc "int i + hint"] n by simp
  then have ln: "nat ?l < n" using Cons.prems(3) l0 by simp
  show ?case
  proof (cases "fst (try_pop (nat ?l) s)")
    case None
    then have "thread_main_sweep hint wlc is ?l s = Some (r, li', s')"
      using Cons.prems(1) ov l0 try_pop_unchanged [OF None]
      by (simp add: Let_def case_prod_unfold)
    then show ?thesis using Cons.IH n Cons.prems(3) by simp
  next
    case (Some a)
    then have "r = fst (try_pop (nat ?l) s)" "li' = ?l" "s' = snd (try_pop (nat ?l) s)"
      using Cons.prems(1) ov l0 by (auto simp add: Let_def case_prod_unfold)
    with Some ln l0 show ?thesis by (intro disjI2 exI [of _ "nat ?l"]) simp
  qed
qed

lemma try_pop_frame:
  "num_tasks (snd (try_pop d s)) = num_tasks s" "executed (snd (try_pop d s)) = executed s"
  by (simp_all add: try_pop_def pop_unprotected_def Let_def set_tasks_stack_def
      set_prev_link_def set_worker_data_def split: option.splits)

lemma thread_main_body_Some:
  assumes body: "thread_main_body i hint spur ns s = Some (hint', s')"
  obtains h s1 r li s2 where
    "(if num_tasks s = 0
      then (case sleep (stop_requested s) spur ns (threads s ! i) of
              None \<Rightarrow> None
            | Some (h, w) \<Rightarrow> Some (h, s\<lparr>threads := (threads s)[i := w]\<rparr>))
      else Some (hint, s)) = Some (h, s1)"
    and "thread_main_sweep h (sint (word_of_nat (length (work_lines s1)) :: 32 word))
           [0..<nat (2 * sint (word_of_nat (length (work_lines s1)) :: 32 word))] 0 s1 = Some (r, li, s2)"
    and "s' = (case r of None \<Rightarrow> s2
        | Some task \<Rightarrow> s2\<lparr>num_tasks := num_tasks s2 - 1, executed := executed s2 @ [(task, li)]\<rparr>)"
proof -
  let ?first = "(if num_tasks s = 0
      then (case sleep (stop_requested s) spur ns (threads s ! i) of
              None \<Rightarrow> None
            | Some (h, w) \<Rightarrow> Some (h, s\<lparr>threads := (threads s)[i := w]\<rparr>))
      else Some (hint, s))"
  have first: "?first \<noteq> None"
  proof
    assume "?first = None"
    then have "thread_main_body i hint spur ns s = None"
      unfolding thread_main_body_def by (simp only: option.case)
    with body show False by simp
  qed
  then obtain h s1 where hs: "?first = Some (h, s1)" by (cases ?first) auto
  let ?wlc = "sint (word_of_nat (length (work_lines s1)) :: 32 word)"
  let ?sw = "thread_main_sweep h ?wlc [0..<nat (2 * ?wlc)] 0 s1"
  have b2: "thread_main_body i hint spur ns s =
      (if 2 * ?wlc < - (2 ^ 31) \<or> 2 ^ 31 \<le> 2 * ?wlc then None
       else
         (case ?sw of
            None \<Rightarrow> None
          | Some (r, li, s2) \<Rightarrow>
              (case r of
                 None \<Rightarrow> Some (h, s2)
               | Some task \<Rightarrow>
                   Some (h, s2\<lparr>num_tasks := num_tasks s2 - 1,
                                executed := executed s2 @ [(task, li)]\<rparr>))))"
    unfolding thread_main_body_def by (simp only: hs option.case prod.case Let_def)
  have sw: "?sw \<noteq> None"
  proof
    assume "?sw = None"
    then have "thread_main_body i hint spur ns s = None"
      by (simp only: b2 option.case if_cancel)
    with body show False by simp
  qed
  then obtain r li s2 where rs: "?sw = Some (r, li, s2)" by (cases ?sw) auto
  have "Some (hint', s') = (if 2 * ?wlc < - (2 ^ 31) \<or> 2 ^ 31 \<le> 2 * ?wlc then None
       else (case r of
                 None \<Rightarrow> Some (h, s2)
               | Some task \<Rightarrow>
                   Some (h, s2\<lparr>num_tasks := num_tasks s2 - 1,
                                executed := executed s2 @ [(task, li)]\<rparr>)))"
    using body by (simp only: b2 rs option.case prod.case)
  then have "s' = (case r of None \<Rightarrow> s2
        | Some task \<Rightarrow> s2\<lparr>num_tasks := num_tasks s2 - 1, executed := executed s2 @ [(task, li)]\<rparr>)"
    by (cases r; cases "2 * ?wlc < - (2 ^ 31) \<or> 2 ^ 31 \<le> 2 * ?wlc") simp_all
  with hs rs show ?thesis by (rule that)
qed

lemma thread_main_body_inv:
  assumes inv: "pool_inv s" and body: "thread_main_body i hint spur ns s = Some (hint', s')"
  shows "pool_inv s' \<and> length (work_lines s') = length (work_lines s) \<and>
    ((\<forall>d < length (work_lines s). tasks_of s' d = tasks_of s d) \<and>
       num_tasks s' = num_tasks s \<and> executed s' = executed s \<or>
     (\<exists>d < length (work_lines s). \<exists>a rest. tasks_of s d = a # rest \<and>
        (\<forall>d' < length (work_lines s). tasks_of s' d' = (if d' = d then rest else tasks_of s d')) \<and>
        num_tasks s' = num_tasks s - 1 \<and> executed s' = executed s @ [(a, int d)]))"
proof -
  let ?n = "length (work_lines s)"
  from body obtain h s1 r li s2 where
    first: "(if num_tasks s = 0
            then (case sleep (stop_requested s) spur ns (threads s ! i) of
                    None \<Rightarrow> None
                  | Some (h, w) \<Rightarrow> Some (h, s\<lparr>threads := (threads s)[i := w]\<rparr>))
            else Some (hint, s)) = Some (h, s1)"
    and sweep0: "thread_main_sweep h (sint (word_of_nat (length (work_lines s1)) :: 32 word))
           [0..<nat (2 * sint (word_of_nat (length (work_lines s1)) :: 32 word))] 0 s1 = Some (r, li, s2)"
    and res: "s' = (case r of None \<Rightarrow> s2
        | Some task \<Rightarrow> s2\<lparr>num_tasks := num_tasks s2 - 1, executed := executed s2 @ [(task, li)]\<rparr>)"
    by (rule thread_main_body_Some)
  from first have s1: "task_mem s1 = task_mem s" "work_lines s1 = work_lines s"
    "num_tasks s1 = num_tasks s" "executed s1 = executed s"
    by (auto split: if_splits option.splits)
  have inv1: "pool_inv s1" and t1: "tasks_of s1 = tasks_of s"
    using inv pool_inv_cong [OF s1(1,2)] tasks_of_cong [OF s1(1,2)] by simp_all
  let ?wlc = "sint (word_of_nat ?n :: 32 word)"
  have sweep: "thread_main_sweep h ?wlc [0..<nat (2 * ?wlc)] 0 s1 = Some (r, li, s2)"
    using sweep0 by (simp only: s1(2))
  have "[0..<nat (2 * ?wlc)] = [] \<or> 0 < ?wlc" by (cases "0 < ?wlc") simp_all
  from thread_main_sweep_Some [OF sweep this sint_of_nat_le]
  show ?thesis
  proof
    assume "r = None \<and> s2 = s1"
    then have "s' = s1" by (simp add: res)
    then show ?thesis using inv1 t1 s1 by simp
  next
    assume "\<exists>d < ?n. li = int d \<and> r = fst (try_pop d s1) \<and> r \<noteq> None \<and> s2 = snd (try_pop d s1)"
    then obtain d a where d: "d < ?n" "li = int d" and r: "fst (try_pop d s1) = Some a" "r = Some a"
      and s2: "s2 = snd (try_pop d s1)"
      by auto
    have d1: "d < length (work_lines s1)" using d(1) by (simp add: s1(2))
    note pop = try_pop_inv [OF inv1 d1]
    from pop r(1) obtain rest where rest: "tasks_of s d = a # rest"
      and free: "\<not> bottleneck (work_lines s1 ! d)"
      by (cases "tasks_of s d") (auto simp add: t1 split: if_splits)
    have s': "s' = s2\<lparr>num_tasks := num_tasks s2 - 1, executed := executed s2 @ [(a, int d)]\<rparr>"
      by (simp add: res r(2) d(2))
    have "task_mem s' = task_mem s2" "work_lines s' = work_lines s2" by (simp_all add: s')
    then have "pool_inv s' = pool_inv s2" "tasks_of s' = tasks_of s2"
      by (rule pool_inv_cong, rule tasks_of_cong)
    moreover have "num_tasks s' = num_tasks s - 1" "executed s' = executed s @ [(a, int d)]"
      by (simp_all add: s' s2 try_pop_frame s1)
    moreover have "length (work_lines s') = ?n" using pop by (simp add: s' s2 s1(2))
    ultimately show ?thesis
      using pop rest free d(1) by (auto simp add: s2 t1 s1(2))
  qed
qed

subsection \<open>Counting the tasks\<close>




lemma pool_run_inv:
  assumes "pool_run s ops s'" and "pool_inv s"
  shows "pool_inv s' \<and> length (work_lines s') = length (work_lines s)"
  using assms
proof (induction rule: pool_run.induct)
  case pool_start
  then show ?case by simp
next
  case (pool_enqueue ops s1 t s2)
  then show ?case using enqueue_inv [of s1 t s2] by simp
next
  case (pool_extract ops s1 t r s2)
  then show ?case using extract_task_inv [of s1 t] by (auto split: if_splits)
next
  case (pool_thread_main ops s1 i hint spur ns hint' s2)
  then show ?case using thread_main_body_inv [of s1 i hint spur ns hint' s2] by simp
qed



lemma enqueue_start_free:
  assumes "0 < length (work_lines s)" and "length (work_lines s) < 2 ^ 31"
    and "\<not> bottleneck (work_lines s ! (unat (line_to_push_to s) mod length (work_lines s)))"
  shows "enqueue t s =
     Some (notify_one (int (unat (line_to_push_to s) mod length (work_lines s)))
       (push_unprotected (unat (line_to_push_to s) mod length (work_lines s)) t
          ((set_prev_link t None (set_next t None s))\<lparr>line_to_push_to := line_to_push_to s + 1\<rparr>)))"
proof -
  let ?n = "length (work_lines s)"
  let ?wlc = "word_of_nat ?n :: 32 word"
  let ?index = "line_to_push_to s mod ?wlc"
  let ?start = "unat (line_to_push_to s) mod ?n"
  let ?s0 = "(set_prev_link t None (set_next t None s))\<lparr>line_to_push_to := line_to_push_to s + 1\<rparr>"
  have lines: "work_lines (set_prev_link t None (set_next t None s)) = work_lines s"
    "work_lines ?s0 = work_lines s"
    and ctr: "line_to_push_to (set_prev_link t None (set_next t None s)) = line_to_push_to s"
    by (simp_all add: set_prev_link_def set_next_def)
  have n0: "?wlc \<noteq> 0" and wn: "unat ?wlc = ?n"
    using assms(1,2) by (rule line_count_word)+
  have c: "unat ((?index + word_of_nat 0) mod ?wlc) = ?start"
    using line_count_word(4) [OF assms(1,2), of "line_to_push_to s"] by simp
  have "?start < 2 ^ 31"
    using mod_less_divisor [OF assms(1)] assms(2) by (rule less_trans)
  then have sc: "sint ((?index + word_of_nat 0) mod ?wlc) = int ?start"
    using c by (simp add: sint_small)
  have up: "[0..<?n] = 0 # [Suc 0..<?n]"
    using assms(1) by (simp add: upt_conv_Cons)
  have "enqueue_try t ?index ?wlc (0 # [Suc 0..<?n]) ?s0 =
      Some (notify_one (int ?start) (push_unprotected ?start t ?s0))"
    using c sc assms(3) by (simp add: try_push_def lines del: of_nat_0 add_0_right)
  then show ?thesis
    using n0 by (simp add: enqueue_def Let_def lines ctr wn up)
qed


lemma enqueue_on_fresh_pool:
  "enqueue 5 (thread_pool_init (\<lambda>a. \<lparr>next_ptr = None, prev_link = None, worker_data = None\<rparr>) 2) =
     Some (notify_one 0 (push_unprotected 0 5
       ((set_prev_link 5 None (set_next 5 None
           (thread_pool_init (\<lambda>a. \<lparr>next_ptr = None, prev_link = None, worker_data = None\<rparr>) 2)))
         \<lparr>line_to_push_to := 1\<rparr>)))"
proof -
  let ?s0 = "thread_pool_init (\<lambda>a. \<lparr>next_ptr = None, prev_link = None, worker_data = None\<rparr>) 2"
  have "0 < length (work_lines ?s0)" "length (work_lines ?s0) < 2 ^ 31"
    "\<not> bottleneck (work_lines ?s0 ! (unat (line_to_push_to ?s0) mod length (work_lines ?s0)))"
    by (simp_all add: thread_pool_init_def)
  from enqueue_start_free [OF this, of 5] show ?thesis
    by (simp add: thread_pool_init_def)
qed






subsection \<open>Extraction\<close>

lemma not_executed_after:
  assumes "pool_run s ops s'" and "pool_inv s"
    and "\<forall>d < length (work_lines s). t \<notin> set (tasks_of s d)" and "Enqueue t \<notin> set ops"
  shows "(\<forall>d < length (work_lines s). t \<notin> set (tasks_of s' d)) \<and>
    (\<exists>es. executed s' = executed s @ es \<and> t \<notin> fst ` set es)"
  using assms
proof (induction rule: pool_run.induct)
  case pool_start
  then show ?case by simp
next
  case (pool_enqueue ops s1 u s2)
  then have inv1: "pool_inv s1" and len: "length (work_lines s1) = length (work_lines s)"
    using pool_run_inv by blast+
  from pool_enqueue have u: "u \<noteq> t" by auto
  from pool_enqueue have IH: "\<forall>d < length (work_lines s). t \<notin> set (tasks_of s1 d)"
    "\<exists>es. executed s1 = executed s @ es \<and> t \<notin> fst ` set es"
    by simp_all
  from enqueue_inv [OF inv1 pool_enqueue.hyps(2,3)] obtain j where
    ts: "\<forall>d < length (work_lines s). tasks_of s2 d = (if d = j then u # tasks_of s1 d else tasks_of s1 d)"
    and e: "executed s2 = executed s1"
    by (auto simp add: len)
  have "\<forall>d < length (work_lines s). t \<notin> set (tasks_of s2 d)"
    using IH(1) ts u by (auto split: if_splits)
  with IH(2) e show ?case by simp
next
  case (pool_extract ops s1 u r s2)
  then have inv1: "pool_inv s1" and len: "length (work_lines s1) = length (work_lines s)"
    using pool_run_inv by blast+
  from pool_extract have IH: "\<forall>d < length (work_lines s). t \<notin> set (tasks_of s1 d)"
    "\<exists>es. executed s1 = executed s @ es \<and> t \<notin> fst ` set es"
    by simp_all
  show ?case
  proof (cases "worker_data (task_mem s1 u) \<noteq> None")
    case True
    with extract_task_inv [OF inv1, of u] pool_extract.hyps(2)
    have "\<forall>d < length (work_lines s). tasks_of s2 d = remove1 u (tasks_of s1 d)"
      "executed s2 = executed s1"
      by (auto simp add: len)
    with IH show ?thesis by (auto dest: notin_set_remove1)
  next
    case False
    with extract_task_inv [OF inv1, of u] pool_extract.hyps(2) have "s2 = s1" by auto
    with IH show ?thesis by simp
  qed
next
  case (pool_thread_main ops s1 i hint spur ns hint' s2)
  then have inv1: "pool_inv s1" and len: "length (work_lines s1) = length (work_lines s)"
    using pool_run_inv by blast+
  from pool_thread_main have IH: "\<forall>d < length (work_lines s). t \<notin> set (tasks_of s1 d)"
    "\<exists>es. executed s1 = executed s @ es \<and> t \<notin> fst ` set es"
    by simp_all
  from IH(2) obtain es where es: "executed s1 = executed s @ es" "t \<notin> fst ` set es" by blast
  from thread_main_body_inv [OF inv1 pool_thread_main.hyps(2)]
  have "(\<forall>d < length (work_lines s). tasks_of s2 d = tasks_of s1 d) \<and> executed s2 = executed s1 \<or>
     (\<exists>d < length (work_lines s). \<exists>a rest. tasks_of s1 d = a # rest \<and>
        (\<forall>d' < length (work_lines s). tasks_of s2 d' = (if d' = d then rest else tasks_of s1 d')) \<and>
        executed s2 = executed s1 @ [(a, int d)])"
    by (auto simp add: len)
  then show ?case
  proof
    assume "(\<forall>d < length (work_lines s). tasks_of s2 d = tasks_of s1 d) \<and> executed s2 = executed s1"
    with IH show ?thesis by simp
  next
    assume "\<exists>d < length (work_lines s). \<exists>a rest. tasks_of s1 d = a # rest \<and>
        (\<forall>d' < length (work_lines s). tasks_of s2 d' = (if d' = d then rest else tasks_of s1 d')) \<and>
        executed s2 = executed s1 @ [(a, int d)]"
    then obtain d a rest where d: "d < length (work_lines s)" "tasks_of s1 d = a # rest"
      and ts: "\<forall>d' < length (work_lines s). tasks_of s2 d' = (if d' = d then rest else tasks_of s1 d')"
      and e: "executed s2 = executed s1 @ [(a, int d)]"
      by blast
    have "a \<noteq> t" using IH(1) d by auto
    then have "executed s2 = executed s @ (es @ [(a, int d)]) \<and> t \<notin> fst ` set (es @ [(a, int d)])"
      using es e by simp
    then have "\<exists>es. executed s2 = executed s @ es \<and> t \<notin> fst ` set es" by blast
    moreover have "\<forall>d' < length (work_lines s). t \<notin> set (tasks_of s2 d')"
      using IH(1) ts d by auto
    ultimately show ?thesis by simp
  qed
qed

text \<open>
  Claim C7. \<open>extract_task(t)\<close> on the pool succeeds exactly when \<open>t\<close> is in some work
  line, which is when its \<open>worker_data_\<close> is not null; \<open>worker_data_\<close> then names the
  line that holds \<open>t\<close>. On success \<open>t\<close> is taken out of that line and every line stays
  well formed, its \<open>worker_data_\<close> and \<open>prev_link_\<close> are null, \<open>num_tasks\<close> is one less,
  no task function has been called, and as long as \<open>t\<close> is not enqueued again no worker
  calls the task function of \<open>t\<close>. On failure the pool is unchanged.
\<close>

theorem extract_task_removes_task:
  assumes "pool_inv s"
  shows "\<exists>s'. extract_task t s = Some (\<exists>d < length (work_lines s). t \<in> set (tasks_of s d), s') \<and>
    ((\<exists>d < length (work_lines s). t \<in> set (tasks_of s d)) \<longleftrightarrow>
       worker_data (task_mem s t) \<noteq> None) \<and>
    (\<forall>d. worker_data (task_mem s t) = Some d \<longrightarrow>
       d < length (work_lines s) \<and> t \<in> set (tasks_of s d)) \<and>
    (if \<exists>d < length (work_lines s). t \<in> set (tasks_of s d)
     then pool_inv s' \<and>
       (\<forall>d < length (work_lines s). tasks_of s' d = remove1 t (tasks_of s d)) \<and>
       (\<forall>d < length (work_lines s). t \<notin> set (tasks_of s' d)) \<and>
       worker_data (task_mem s' t) = None \<and> prev_link (task_mem s' t) = None \<and>
       num_tasks s' = num_tasks s - 1 \<and> executed s' = executed s \<and>
       (\<forall>ops s''. pool_run s' ops s'' \<and> Enqueue t \<notin> set ops \<longrightarrow>
          (\<exists>es. executed s'' = executed s' @ es \<and> t \<notin> fst ` set es))
     else s' = s)"
proof -
  let ?in = "\<exists>d < length (work_lines s). t \<in> set (tasks_of s d)"
  have iff: "?in \<longleftrightarrow> worker_data (task_mem s t) \<noteq> None"
  proof
    assume ?in
    then obtain d where "d < length (work_lines s)" "t \<in> set (tasks_of s d)" by blast
    then have "worker_data (task_mem s t) = Some d" by (rule pool_inv_member [OF assms])
    then show "worker_data (task_mem s t) \<noteq> None" by simp
  next
    assume "worker_data (task_mem s t) \<noteq> None"
    then obtain d where "worker_data (task_mem s t) = Some d" by blast
    then have "d < length (work_lines s)" "t \<in> set (tasks_of s d)"
      by (rule pool_inv_owner [OF assms])+
    then show ?in by blast
  qed
  have own: "\<forall>d. worker_data (task_mem s t) = Some d \<longrightarrow>
       d < length (work_lines s) \<and> t \<in> set (tasks_of s d)"
    using pool_inv_owner [OF assms, of t] by simp
  from extract_task_inv [OF assms, of t] obtain s' where
    ex: "extract_task t s = Some (worker_data (task_mem s t) \<noteq> None, s')"
    and eff: "if worker_data (task_mem s t) \<noteq> None
     then pool_inv s' \<and> length (work_lines s') = length (work_lines s) \<and>
       (\<forall>d < length (work_lines s). tasks_of s' d = remove1 t (tasks_of s d)) \<and>
       worker_data (task_mem s' t) = None \<and> prev_link (task_mem s' t) = None \<and>
       num_tasks s' = num_tasks s - 1 \<and> executed s' = executed s
     else s' = s"
    by blast
  have "if ?in
     then pool_inv s' \<and>
       (\<forall>d < length (work_lines s). tasks_of s' d = remove1 t (tasks_of s d)) \<and>
       (\<forall>d < length (work_lines s). t \<notin> set (tasks_of s' d)) \<and>
       worker_data (task_mem s' t) = None \<and> prev_link (task_mem s' t) = None \<and>
       num_tasks s' = num_tasks s - 1 \<and> executed s' = executed s \<and>
       (\<forall>ops s''. pool_run s' ops s'' \<and> Enqueue t \<notin> set ops \<longrightarrow>
          (\<exists>es. executed s'' = executed s' @ es \<and> t \<notin> fst ` set es))
     else s' = s"
  proof (cases ?in)
    case False
    with eff iff show ?thesis by simp
  next
    case True
    with eff iff have inv': "pool_inv s'" and len: "length (work_lines s') = length (work_lines s)"
      and ts: "\<forall>d < length (work_lines s). tasks_of s' d = remove1 t (tasks_of s d)"
      and rest: "worker_data (task_mem s' t) = None" "prev_link (task_mem s' t) = None"
        "num_tasks s' = num_tasks s - 1" "executed s' = executed s"
      by simp_all
    have gone: "\<forall>d < length (work_lines s). t \<notin> set (tasks_of s' d)"
      using ts pool_inv_line(2) [OF assms] by (simp add: set_remove1_eq)
    then have gone': "\<forall>d < length (work_lines s'). t \<notin> set (tasks_of s' d)"
      by (simp add: len)
    have "\<forall>ops s''. pool_run s' ops s'' \<and> Enqueue t \<notin> set ops \<longrightarrow>
          (\<exists>es. executed s'' = executed s' @ es \<and> t \<notin> fst ` set es)"
      using not_executed_after [OF _ inv' gone'] by blast
    with True inv' ts gone rest show ?thesis by simp
  qed
  with ex iff own show ?thesis by auto
qed


theorem extract_task_removes_task_witness:
  "\<exists>s1 s2. enqueue 5 (thread_pool_init (\<lambda>a. \<lparr>next_ptr = None, prev_link = None, worker_data = None\<rparr>) 2)
       = Some s1 \<and>
     tasks_of s1 0 = [5] \<and> extract_task 5 s1 = Some (True, s2) \<and> tasks_of s2 0 = [] \<and>
     num_tasks s2 = 0 \<and> executed s2 = [] \<and> extract_task 5 s2 = Some (False, s2)"
proof -
  let ?s0 = "thread_pool_init (\<lambda>a. \<lparr>next_ptr = None, prev_link = None, worker_data = None\<rparr>) 2"
  define s1 where "s1 = notify_one 0 (push_unprotected 0 5
       ((set_prev_link 5 None (set_next 5 None ?s0))\<lparr>line_to_push_to := 1\<rparr>))"
  have inv0: "pool_inv ?s0" by (rule thread_pool_init_inv) simp
  have det: "worker_data (task_mem ?s0 5) = None" by (simp add: thread_pool_init_def)
  have e: "enqueue 5 ?s0 = Some s1" unfolding s1_def by (rule enqueue_on_fresh_pool)
  from enqueue_inv [OF inv0 det e] have inv1: "pool_inv s1" by simp
  have fields: "length (work_lines s1) = 2" "num_tasks s1 = 1" "executed s1 = []"
    unfolding s1_def
    by (simp_all add: push_unprotected_eq thread_pool_init_def set_prev_link_def set_next_def)
  have l1: "tasks_of s1 0 = [5]"
    unfolding s1_def
    by (simp add: tasks_of_def chain_Some push_unprotected_eq thread_pool_init_def
        set_prev_link_def set_next_def)
  have in1: "\<exists>d < length (work_lines s1). 5 \<in> set (tasks_of s1 d)"
    using l1 fields(1) by (intro exI [of _ 0]) simp
  from extract_task_removes_task [OF inv1, of 5] obtain s2 where
    x: "extract_task 5 s1 = Some (\<exists>d < length (work_lines s1). 5 \<in> set (tasks_of s1 d), s2)"
    and y: "if \<exists>d < length (work_lines s1). 5 \<in> set (tasks_of s1 d)
     then pool_inv s2 \<and>
       (\<forall>d < length (work_lines s1). tasks_of s2 d = remove1 5 (tasks_of s1 d)) \<and>
       (\<forall>d < length (work_lines s1). 5 \<notin> set (tasks_of s2 d)) \<and>
       worker_data (task_mem s2 5) = None \<and> prev_link (task_mem s2 5) = None \<and>
       num_tasks s2 = num_tasks s1 - 1 \<and> executed s2 = executed s1 \<and>
       (\<forall>ops s''. pool_run s2 ops s'' \<and> Enqueue 5 \<notin> set ops \<longrightarrow>
          (\<exists>es. executed s'' = executed s2 @ es \<and> 5 \<notin> fst ` set es))
     else s2 = s1"
    by blast
  from x in1 have x': "extract_task 5 s1 = Some (True, s2)" by simp
  from y in1 have inv2: "pool_inv s2"
    and l2: "\<forall>d < length (work_lines s1). tasks_of s2 d = remove1 5 (tasks_of s1 d)"
    and det2: "worker_data (task_mem s2 5) = None"
    and n2: "num_tasks s2 = num_tasks s1 - 1" "executed s2 = executed s1"
    by simp_all
  have l2': "tasks_of s2 0 = []" using l2 l1 fields(1) by simp
  have out2: "\<not> (\<exists>d < length (work_lines s2). 5 \<in> set (tasks_of s2 d))"
    using pool_inv_member [OF inv2, of _ 5] det2 by auto
  have x2: "extract_task 5 s2 = Some (False, s2)"
    using det2 by (simp add: extract_task_def)
  have n2': "num_tasks s2 = 0" "executed s2 = []"
    using n2 fields by simp_all
  show ?thesis
    using e l1 x' l2' n2' x2 by (intro exI [of _ s1] exI [of _ s2] conjI)
qed

section \<open>Properties of spawn and await\<close>


























end
